theory Spec2Isabelle
  imports Main
begin

section \<open>Data model\<close>

text \<open>
  A row of the table \<open>GrowthEntry\<close> (prisma/migrations/.../migration.sql) and the
  \<open>Entry\<close> interface of types/entry.ts share their fields; they differ in the type of
  \<open>tags\<close>: the table keeps one TEXT column holding a JSON array, the interface a
  \<open>string[]\<close>. The fields carry the prefix \<open>e_\<close>, since \<open>id\<close> and \<open>text\<close> are names of
  Isabelle's own. Timestamps are milliseconds since the epoch (what \<open>Date.getTime()\<close>
  returns) and \<open>effort\<close> is an integer, as the INTEGER column holds it; whether the store
  takes a given integer is its own matter (see \<open>create\<close>). A JavaScript string
  is modelled as a \<open>string\<close>, a list of code units below 0x100; \<open>length\<close> counts them as
  \<open>.length\<close> does.
\<close>

record 't growthEntry =
  e_id :: string
  e_date :: int
  e_text :: string
  e_effort :: int
  e_tags :: 't
  e_createdAt :: int
  e_updatedAt :: int

type_synonym row = "string growthEntry"
type_synonym entry = "string list growthEntry"

section \<open>app/page.tsx: the streak\<close>

text \<open>
  The \<open>Date\<close> operations of \<open>calcStreak\<close>, after ECMA-262 (21.4.1). A time value is a
  number of milliseconds since the epoch, at most 8.64e15 in size; the time value of an
  invalid \<open>Date\<close> is \<open>NaN\<close>, here \<open>None\<close>. The local time zone is the function
  \<open>LocalTZA(t, isUTC)\<close> of the host: the offset of local time from UTC in milliseconds,
  at the UTC time \<open>t\<close> when \<open>isUTC\<close> holds and at the local time \<open>t\<close> otherwise. It is a
  parameter, so every zone is covered, with its changes between summer and winter time.
\<close>

type_synonym zone = "int \<Rightarrow> bool \<Rightarrow> int"

definition msPerDay :: int where
  "msPerDay = 86400000"

definition Day :: "int \<Rightarrow> int" where
  "Day t = t div msPerDay"

definition TimeWithinDay :: "int \<Rightarrow> int" where
  "TimeWithinDay t = t mod msPerDay"

definition MakeDate :: "int \<Rightarrow> int \<Rightarrow> int" where
  "MakeDate day time = day * msPerDay + time"

definition LocalTime :: "zone \<Rightarrow> int \<Rightarrow> int" where
  "LocalTime tza t = t + tza t True"

definition UTC :: "zone \<Rightarrow> int \<Rightarrow> int" where
  "UTC tza t = t - tza t False"

definition TimeClip :: "int \<Rightarrow> int option" where
  "TimeClip t = (if \<bar>t\<bar> \<le> 8640000000000000 then Some t else None)"

text \<open>
  \<open>d.setHours(0, 0, 0, 0)\<close> on a \<open>Date\<close> with time value \<open>d\<close>:
  \<open>TimeClip(UTC(MakeDate(Day(LocalTime(d)), MakeTime(0, 0, 0, 0))))\<close>, and \<open>NaN\<close> stays.
\<close>

definition setHours0 :: "zone \<Rightarrow> int option \<Rightarrow> int option" where
  "setHours0 tza d =
     (case d of
        None \<Rightarrow> None
      | Some t \<Rightarrow> TimeClip (UTC tza (MakeDate (Day (LocalTime tza t)) 0)))"

text \<open>
  \<open>expectedDate = new Date(today); expectedDate.setDate(today.getDate() - i)\<close>.
  \<open>setDate(dt)\<close> is \<open>TimeClip(UTC(MakeDate(MakeDay(YearFromTime(t), MonthFromTime(t), dt),
  TimeWithinDay(t))))\<close> at \<open>t = LocalTime(today)\<close>, and \<open>getDate()\<close> is \<open>DateFromTime(t)\<close>.
  \<open>MakeDay(y, m, dt)\<close> is the day number of the first day of month \<open>m\<close> of year \<open>y\<close>
  plus \<open>dt - 1\<close>; the first day of the month of \<open>t\<close> has the day number
  \<open>Day(t) - (DateFromTime(t) - 1)\<close>, so the day passed on is \<open>Day(t) - i\<close>: the local
  calendar day \<open>i\<close> days earlier, at the same local time of day.
\<close>

definition expectedDate :: "zone \<Rightarrow> int option \<Rightarrow> nat \<Rightarrow> int option" where
  "expectedDate tza today i =
     (case today of
        None \<Rightarrow> None
      | Some d \<Rightarrow>
          (let t = LocalTime tza d
           in TimeClip (UTC tza (MakeDate (Day t - int i) (TimeWithinDay t)))))"

text \<open>\<open>a.getTime() === b.getTime()\<close>: \<open>NaN\<close> is equal to nothing.\<close>

definition sameTime :: "int option \<Rightarrow> int option \<Rightarrow> bool" where
  "sameTime a b = (case (a, b) of (Some x, Some y) \<Rightarrow> x = y | _ \<Rightarrow> False)"

text \<open>
  The \<open>for\<close> loop of \<open>calcStreak\<close>, with its counter \<open>i\<close> and the variable \<open>streak\<close>.
  \<open>e_date\<close> is the time value that the string \<open>entries[i].date\<close> denotes (the server
  writes the string from a stored timestamp), so \<open>new Date(entries[i].date)\<close> has the
  time value \<open>TimeClip (e_date (entries ! i))\<close>.
\<close>

function calcStreak_loop :: "zone \<Rightarrow> int option \<Rightarrow> entry list \<Rightarrow> nat \<Rightarrow> nat \<Rightarrow> nat" where
  "calcStreak_loop tza today entries i streak =
     (if i < length entries then
        (if sameTime (setHours0 tza (TimeClip (e_date (entries ! i)))) (expectedDate tza today i)
         then calcStreak_loop tza today entries (i + 1) (streak + 1)
         else streak)
      else streak)"
  by pat_completeness auto
termination
  by (relation "measure (\<lambda>(tza, today, entries, i, streak). length entries - i)") auto

text \<open>\<open>now\<close> is the time value of \<open>new Date()\<close> at the call.\<close>

definition calcStreak :: "zone \<Rightarrow> int \<Rightarrow> entry list \<Rightarrow> nat" where
  "calcStreak tza now entries =
     (if length entries = 0 then 0
      else calcStreak_loop tza (setHours0 tza (TimeClip now)) entries 0 0)"

text \<open>
  The specification's test at index \<open>i\<close>: the entry's date, normalised to local midnight,
  is today's local midnight minus \<open>i\<close> days of the local calendar.
\<close>

definition day_matches :: "zone \<Rightarrow> int \<Rightarrow> entry list \<Rightarrow> nat \<Rightarrow> bool" where
  "day_matches tza now entries i \<longleftrightarrow>
     sameTime (setHours0 tza (TimeClip (e_date (entries ! i))))
       (expectedDate tza (setHours0 tza (TimeClip now)) i)"

text \<open>The number of the local calendar day that holds the time \<open>t\<close>.\<close>

definition localDay :: "zone \<Rightarrow> int \<Rightarrow> int" where
  "localDay tza t = Day (LocalTime tza t)"

text \<open>
  A zone whose offsets at local times differ by less than a day. It holds of every zone
  but those that left out a whole calendar day when they moved across the date line.
\<close>

definition offsetsWithinADay :: "zone \<Rightarrow> bool" where
  "offsetsWithinADay tza \<longleftrightarrow> (\<forall>a b. \<bar>tza a False - tza b False\<bar> < msPerDay)"

section \<open>JSON.stringify and JSON.parse on arrays of strings\<close>

text \<open>
  The route handlers keep \<open>tags\<close> as \<open>JSON.stringify(tags)\<close> and read it with
  \<open>JSON.parse\<close>. Both built-ins are modelled on the values the handlers pass them: an
  array of strings and its text. \<open>QuoteJSONString\<close> follows ECMA-262 (25.5.2.3): the
  two-character escapes for backspace, tab, line feed, form feed, carriage return, the
  double quote and the backslash, \<open>\uXXXX\<close> with lower-case digits for the other code
  units below 0x20, and every other code unit as it is.
\<close>

definition hexDigit :: "nat \<Rightarrow> char" where
  "hexDigit d = ''0123456789abcdef'' ! d"

definition UnicodeEscape :: "nat \<Rightarrow> string" where
  "UnicodeEscape n =
     [CHR 0x5C, CHR ''u'', hexDigit (n div 4096 mod 16), hexDigit (n div 256 mod 16),
      hexDigit (n div 16 mod 16), hexDigit (n mod 16)]"

definition quoteChar :: "char \<Rightarrow> string" where
  "quoteChar c =
     (if c = CHR 0x08 then [CHR 0x5C, CHR ''b'']
      else if c = CHR 0x09 then [CHR 0x5C, CHR ''t'']
      else if c = CHR 0x0A then [CHR 0x5C, CHR ''n'']
      else if c = CHR 0x0C then [CHR 0x5C, CHR ''f'']
      else if c = CHR 0x0D then [CHR 0x5C, CHR ''r'']
      else if c = CHR 0x22 then [CHR 0x5C, CHR 0x22]
      else if c = CHR 0x5C then [CHR 0x5C, CHR 0x5C]
      else if (of_char c :: nat) < 32 then UnicodeEscape (of_char c)
      else [c])"

definition QuoteJSONString :: "string \<Rightarrow> string" where
  "QuoteJSONString s = CHR 0x22 # concat (map quoteChar s) @ [CHR 0x22]"

fun joinComma :: "string list \<Rightarrow> string" where
  "joinComma [] = []"
| "joinComma [x] = x"
| "joinComma (x # y # ys) = x @ CHR '','' # joinComma (y # ys)"

definition JSON_stringify :: "string list \<Rightarrow> string" where
  "JSON_stringify xs = CHR ''['' # joinComma (map QuoteJSONString xs) @ [CHR '']'']"

text \<open>
  \<open>JSON.parse\<close>, as far as the result is an array of strings: \<open>None\<close> stands for the
  \<open>SyntaxError\<close> it throws and for every text that denotes another kind of value. A
  \<open>\uXXXX\<close> escape above 0xFF has no counterpart in \<open>char\<close> and is refused as well.
\<close>

definition hexValue :: "char \<Rightarrow> nat option" where
  "hexValue c =
     (let n = (of_char c :: nat) in
      if 48 \<le> n \<and> n \<le> 57 then Some (n - 48)
      else if 97 \<le> n \<and> n \<le> 102 then Some (n - 87)
      else if 65 \<le> n \<and> n \<le> 70 then Some (n - 55)
      else None)"

definition hex4Value :: "char \<Rightarrow> char \<Rightarrow> char \<Rightarrow> char \<Rightarrow> nat option" where
  "hex4Value a b c d =
     (case (hexValue a, hexValue b, hexValue c, hexValue d) of
        (Some w, Some x, Some y, Some z) \<Rightarrow> Some (((w * 16 + x) * 16 + y) * 16 + z)
      | _ \<Rightarrow> None)"

definition unescapeChar :: "char \<Rightarrow> char option" where
  "unescapeChar e =
     (if e = CHR 0x22 then Some (CHR 0x22)
      else if e = CHR 0x5C then Some (CHR 0x5C)
      else if e = CHR ''/'' then Some (CHR ''/'')
      else if e = CHR ''b'' then Some (CHR 0x08)
      else if e = CHR ''f'' then Some (CHR 0x0C)
      else if e = CHR ''n'' then Some (CHR 0x0A)
      else if e = CHR ''r'' then Some (CHR 0x0D)
      else if e = CHR ''t'' then Some (CHR 0x09)
      else None)"

definition consResult :: "'a \<Rightarrow> ('a list \<times> 'b) option \<Rightarrow> ('a list \<times> 'b) option" where
  "consResult x r = (case r of None \<Rightarrow> None | Some (xs, rest) \<Rightarrow> Some (x # xs, rest))"

text \<open>The characters of a string literal after its opening quote, and the text left.\<close>

fun parseStringBody :: "string \<Rightarrow> (string \<times> string) option" where
  "parseStringBody [] = None"
| "parseStringBody (c # cs) =
     (if c = CHR 0x22 then Some ([], cs)
      else if c = CHR 0x5C then
        (case cs of
           [] \<Rightarrow> None
         | e # cs' \<Rightarrow>
             if e = CHR ''u'' then
               (case cs' of
                  h1 # h2 # h3 # h4 # cs'' \<Rightarrow>
                    (case hex4Value h1 h2 h3 h4 of
                       None \<Rightarrow> None
                     | Some n \<Rightarrow>
                         if n < 256 then consResult (char_of n) (parseStringBody cs'')
                         else None)
                | _ \<Rightarrow> None)
             else
               (case unescapeChar e of
                  None \<Rightarrow> None
                | Some x \<Rightarrow> consResult x (parseStringBody cs')))
      else if (of_char c :: nat) < 32 then None
      else consResult c (parseStringBody cs))"

definition isJsonWhitespace :: "char \<Rightarrow> bool" where
  "isJsonWhitespace c \<longleftrightarrow> c = CHR 0x20 \<or> c = CHR 0x09 \<or> c = CHR 0x0A \<or> c = CHR 0x0D"

definition skipWs :: "string \<Rightarrow> string" where
  "skipWs cs = dropWhile isJsonWhitespace cs"

text \<open>The elements of a non-empty array after its opening bracket, up to the closing one.\<close>

function parseElements :: "string \<Rightarrow> (string list \<times> string) option" where
  "parseElements cs =
     (case skipWs cs of
        [] \<Rightarrow> None
      | q # cs1 \<Rightarrow>
          if q = CHR 0x22 then
            (case parseStringBody cs1 of
               None \<Rightarrow> None
             | Some (s, cs2) \<Rightarrow>
                 (case skipWs cs2 of
                    [] \<Rightarrow> None
                  | d # cs3 \<Rightarrow>
                      if d = CHR '','' then consResult s (parseElements cs3)
                      else if d = CHR '']'' then Some ([s], cs3)
                      else None))
          else None)"
  by pat_completeness auto
termination
proof (relation "measure length", goal_cases)
  case 1
  show ?case by simp
next
  case (2 cs q cs1 x s cs2 d cs3)
  have shorter: "parseStringBody xs = Some (y, rest) \<Longrightarrow> length rest < length xs"
    for xs y rest
  proof (induction xs arbitrary: y rest rule: parseStringBody.induct)
    case 1
    then show ?case by simp
  next
    case (2 c cs)
    then show ?case
      by (auto simp: consResult_def split: if_splits list.splits option.splits prod.splits)
        fastforce+
  qed
  have "length cs3 < length (skipWs cs2)"
    using 2 by simp
  also have "\<dots> \<le> length cs2"
    by (simp add: skipWs_def length_dropWhile_le)
  also have "\<dots> < length cs1"
    using 2 shorter [of cs1 s cs2] by simp
  also have "\<dots> < length (skipWs cs)"
    using 2 by simp
  also have "\<dots> \<le> length cs"
    by (simp add: skipWs_def length_dropWhile_le)
  finally show ?case by simp
qed

definition JSON_parse :: "string \<Rightarrow> string list option" where
  "JSON_parse text =
     (case skipWs text of
        [] \<Rightarrow> None
      | b # cs \<Rightarrow>
          if b = CHR ''['' then
            (case skipWs cs of
               [] \<Rightarrow> None
             | c # cs' \<Rightarrow>
                 if c = CHR '']'' then (if skipWs cs' = [] then Some [] else None)
                 else
                   (case parseElements (c # cs') of
                      None \<Rightarrow> None
                    | Some (xs, rest) \<Rightarrow> if skipWs rest = [] then Some xs else None))
          else None)"

section \<open>The persistence layer\<close>

text \<open>
  The table is the list of its rows in the order of their insertion: \<open>create\<close> appends.
\<close>

text \<open>
  Modelled from the spec: the Prisma client \<open>prisma\<close> of lib/prisma.ts and its schema are
  not among the sources, so the row order of \<open>findMany\<close> with
  \<open>orderBy: { date: "desc" }\<close> is the specification's: by \<open>date\<close> descending, rows of
  equal date in the order newest-inserted first.
\<close>

definition orderBy_date_desc :: "row list \<Rightarrow> row list" where
  "orderBy_date_desc store = sort_key (\<lambda>r. - e_date r) (rev store)"

text \<open>
  Modelled from the spec: \<open>prisma.growthEntry.findMany\<close> is not among the sources. With
  \<open>cursor: { id: c }, skip: k\<close> the result starts at the row whose id is \<open>c\<close>, leaves
  \<open>k\<close> rows out and holds at most \<open>take\<close> rows; without a cursor it starts at the first
  row. A cursor that names no row gives the empty result, one of the two policies the
  specification leaves open.
\<close>

definition findMany :: "row list \<Rightarrow> nat \<Rightarrow> (string \<times> nat) option \<Rightarrow> row list" where
  "findMany store take_n cursor_skip =
     take take_n
       (case cursor_skip of
          None \<Rightarrow> orderBy_date_desc store
        | Some (c, k) \<Rightarrow> drop k (dropWhile (\<lambda>r. e_id r \<noteq> c) (orderBy_date_desc store)))"

text \<open>
  What a handler can throw: the \<open>SyntaxError\<close> of \<open>JSON.parse\<close>, and the failure of a call
  of the store, the specification's \<open>StorageFailure\<close>.
\<close>

datatype error = SyntaxError | StorageFailure

text \<open>
  Modelled from the spec: \<open>prisma.growthEntry.create\<close> is not among the sources. The call
  either inserts the row, with the id and the timestamps that the store assigns, and
  returns it, or it throws and the table stays as it was: a lost connection, a violated
  constraint, a value that the column or the client refuses. What the store does in a
  call is its own part and a parameter here: \<open>assigned\<close> is \<open>Some (new_id, now)\<close> when it
  inserts the row and \<open>None\<close> when it throws.
\<close>

definition create :: "row list \<Rightarrow> (string \<times> int) option \<Rightarrow> string \<Rightarrow> int \<Rightarrow> string \<Rightarrow> (error + row) \<times> row list" where
  "create store assigned text effort tags =
     (case assigned of
        None \<Rightarrow> (Inl StorageFailure, store)
      | Some (new_id, now) \<Rightarrow>
          (let created = \<lparr>e_id = new_id, e_date = now, e_text = text, e_effort = effort,
                           e_tags = tags, e_createdAt = now, e_updatedAt = now\<rparr>
           in (Inr created, store @ [created])))"

section \<open>app/api/entries/route.ts\<close>

text \<open>\<open>{ ...entry, tags: ts }\<close>\<close>

definition withTags :: "row \<Rightarrow> string list \<Rightarrow> entry" where
  "withTags r ts =
     \<lparr>e_id = e_id r, e_date = e_date r, e_text = e_text r, e_effort = e_effort r,
      e_tags = ts, e_createdAt = e_createdAt r, e_updatedAt = e_updatedAt r\<rparr>"

text \<open>
  \<open>entry => ({ ...entry, tags: entry.tags ? JSON.parse(entry.tags) : [] })\<close>; the empty
  string is the only falsy string.
\<close>

definition decodeRow :: "row \<Rightarrow> error + entry" where
  "decodeRow r =
     (if e_tags r \<noteq> [] then
        (case JSON_parse (e_tags r) of
           None \<Rightarrow> Inl SyntaxError
         | Some ts \<Rightarrow> Inr (withTags r ts))
      else Inr (withTags r []))"

text \<open>\<open>result.map(...)\<close>, which ends at the first row whose \<open>tags\<close> does not parse.\<close>

fun mapRows :: "row list \<Rightarrow> error + entry list" where
  "mapRows [] = Inr []"
| "mapRows (r # rs) =
     (case decodeRow r of
        Inl e \<Rightarrow> Inl e
      | Inr x \<Rightarrow> (case mapRows rs of Inl e \<Rightarrow> Inl e | Inr xs \<Rightarrow> Inr (x # xs)))"

record list_response =
  entries :: "entry list"
  nextCursor :: "string option"

text \<open>
  \<open>GET\<close>. The query of the request is the list of its name-value pairs, and
  \<open>searchParams.get\<close> gives the first value of a name. \<open>cursor ? ... : {}\<close> takes the
  second branch for a missing and for an empty value. \<open>result.pop()\<close> takes the last row
  off \<open>result\<close>, so the second binding of \<open>result\<close> is the array after it.
\<close>

definition GET :: "row list \<Rightarrow> (string \<times> string) list \<Rightarrow> error + list_response" where
  "GET store searchParams =
     (let cursor = map_of searchParams ''cursor'';
          take_n = 20;
          result = findMany store (take_n + 1)
                     (case cursor of
                        None \<Rightarrow> None
                      | Some c \<Rightarrow> if c \<noteq> [] then Some (c, 1) else None);
          next_cursor = (if length result > take_n then Some (e_id (last result)) else None);
          result = (if length result > take_n then butlast result else result)
      in case mapRows result of
           Inl e \<Rightarrow> Inl e
         | Inr es \<Rightarrow> Inr \<lparr>entries = es, nextCursor = next_cursor\<rparr>)"

text \<open>
  The body of a \<open>POST\<close> request after \<open>req.json()\<close>: each field may be missing
  (\<open>undefined\<close> or \<open>null\<close>). \<open>effort\<close> is a JavaScript number; the model holds the
  numbers that are integers.
\<close>

record post_body =
  b_text :: "string option"
  b_effort :: "int option"
  b_tags :: "string list option"

datatype post_response = BadRequest_400 | Created_201 entry

text \<open>
  \<open>POST\<close> returns its response and the table after the call. \<open>!text\<close> holds for a missing
  and for an empty text, \<open>!effort\<close> for a missing effort and for 0. What \<open>create\<close> throws
  leaves the handler as it is.
\<close>

definition POST :: "row list \<Rightarrow> (string \<times> int) option \<Rightarrow> post_body \<Rightarrow> (error + post_response) \<times> row list" where
  "POST store assigned body =
     (case b_text body of
        None \<Rightarrow> (Inr BadRequest_400, store)
      | Some text \<Rightarrow>
          if text = [] then (Inr BadRequest_400, store)
          else
            (case b_effort body of
               None \<Rightarrow> (Inr BadRequest_400, store)
             | Some effort \<Rightarrow>
                 if effort = 0 then (Inr BadRequest_400, store)
                 else
                   (case create store assigned text effort
                           (JSON_stringify (case b_tags body of None \<Rightarrow> [] | Some ts \<Rightarrow> ts)) of
                      (Inl e, store') \<Rightarrow> (Inl e, store')
                    | (Inr created, store') \<Rightarrow>
                        (case JSON_parse (e_tags created) of
                           None \<Rightarrow> (Inl SyntaxError, store')
                         | Some ts \<Rightarrow> (Inr (Created_201 (withTags created ts)), store')))))"

section \<open>app/page.tsx: the form\<close>

text \<open>The code units below 0x100 that \<open>String.prototype.trim\<close> removes.\<close>

definition isWhiteSpace :: "char \<Rightarrow> bool" where
  "isWhiteSpace c \<longleftrightarrow>
     c = CHR 0x09 \<or> c = CHR 0x0A \<or> c = CHR 0x0B \<or> c = CHR 0x0C \<or> c = CHR 0x0D
     \<or> c = CHR 0x20 \<or> c = CHR 0xA0"

definition trim :: "string \<Rightarrow> string" where
  "trim s = rev (dropWhile isWhiteSpace (rev (dropWhile isWhiteSpace s)))"

datatype form_error = TextRequired | TextTooLong | RequestFailed

definition validateInput :: "string \<Rightarrow> form_error option" where
  "validateInput text =
     (if trim text = [] then Some TextRequired
      else if length text > 500 then Some TextTooLong
      else None)"

text \<open>\<open>tags.split(",")\<close>\<close>

fun splitComma :: "string \<Rightarrow> string list" where
  "splitComma [] = [[]]"
| "splitComma (c # cs) =
     (if c = CHR '','' then [] # splitComma cs
      else (case splitComma cs of [] \<Rightarrow> [[c]] | w # ws \<Rightarrow> (c # w) # ws))"

text \<open>
  \<open>addEntry\<close> on the form fields \<open>text\<close>, \<open>effort\<close> and \<open>tags\<close>: the error it shows, if any,
  and the table afterwards. It returns before the request when \<open>validateInput\<close> objects,
  and reports a failure for every response that is not \<open>ok\<close>.
\<close>

definition addEntry :: "row list \<Rightarrow> (string \<times> int) option \<Rightarrow> string \<Rightarrow> int \<Rightarrow> string \<Rightarrow> form_error option \<times> row list" where
  "addEntry store assigned text effort tags =
     (case validateInput text of
        Some validationError \<Rightarrow> (Some validationError, store)
      | None \<Rightarrow>
          (let payload = \<lparr>b_text = Some (trim text), b_effort = Some effort,
                          b_tags = Some (filter (\<lambda>t. t \<noteq> []) (map trim (splitComma tags)))\<rparr>
           in case POST store assigned payload of
                (Inr (Created_201 e), store') \<Rightarrow> (None, store')
              | (_, store') \<Rightarrow> (Some RequestFailed, store')))"

section \<open>Notions of the specification\<close>

text \<open>
  The tables the handlers can meet: \<open>id\<close> is the primary key (migration.sql) and is never
  empty, and every \<open>tags\<close> column can be read back by \<open>GET\<close>, as those written by \<open>POST\<close>
  can.
\<close>

definition wellFormedStore :: "row list \<Rightarrow> bool" where
  "wellFormedStore store \<longleftrightarrow>
     distinct (map e_id store)
     \<and> list_all (\<lambda>r. e_id r \<noteq> [] \<and> decodeRow r \<noteq> Inl SyntaxError) store"

text \<open>
  The integers that a JavaScript number holds exactly, each apart from its neighbours
  (\<open>Number.isSafeInteger\<close>).
\<close>

definition isSafeInteger :: "int \<Rightarrow> bool" where
  "isSafeInteger n \<longleftrightarrow> \<bar>n\<bar> \<le> 9007199254740991"

text \<open>The cursor a query carries: the first value of \<open>cursor\<close>, unless it is empty.\<close>

definition cursorParam :: "(string \<times> string) list \<Rightarrow> string option" where
  "cursorParam searchParams =
     (case map_of searchParams ''cursor'' of
        None \<Rightarrow> None
      | Some c \<Rightarrow> if c = [] then None else Some c)"

text \<open>
  The rows a page may draw from: all rows in the order of the store without a cursor, and
  with one the rows after the first row that has the cursor's id.
\<close>

definition rowsAfter :: "row list \<Rightarrow> string option \<Rightarrow> row list" where
  "rowsAfter store cursor =
     (case cursor of
        None \<Rightarrow> orderBy_date_desc store
      | Some c \<Rightarrow> tl (dropWhile (\<lambda>r. e_id r \<noteq> c) (orderBy_date_desc store)))"

text \<open>The position of the row with id \<open>i\<close> in the order of insertion.\<close>

definition insertionIndex :: "row list \<Rightarrow> string \<Rightarrow> nat" where
  "insertionIndex store i = length (takeWhile (\<lambda>r. e_id r \<noteq> i) store)"

text \<open>
  The order of the timeline: \<open>a\<close> comes before \<open>b\<close> when its date is later, or the dates are
  equal and \<open>a\<close> was inserted later.
\<close>

definition newerFirst :: "row list \<Rightarrow> 't growthEntry \<Rightarrow> 't growthEntry \<Rightarrow> bool" where
  "newerFirst store a b \<longleftrightarrow>
     e_date b < e_date a
     \<or> (e_date a = e_date b \<and> insertionIndex store (e_id b) < insertionIndex store (e_id a))"

text \<open>
  The reader of the specification's property P1: \<open>GET\<close> without a cursor, then with every
  \<open>nextCursor\<close> it is given until there is none, the pages put end to end. \<open>n\<close> bounds the
  number of requests; \<open>None\<close> says that the bound was too small.
\<close>

fun allPages :: "nat \<Rightarrow> row list \<Rightarrow> (string \<times> string) list \<Rightarrow> (error + entry list) option" where
  "allPages 0 store ps = None"
| "allPages (Suc n) store ps =
     (case GET store ps of
        Inl e \<Rightarrow> Some (Inl e)
      | Inr resp \<Rightarrow>
          (case nextCursor resp of
             None \<Rightarrow> Some (Inr (entries resp))
           | Some c \<Rightarrow>
               (case allPages n store [(''cursor'', c)] of
                  None \<Rightarrow> None
                | Some (Inl e) \<Rightarrow> Some (Inl e)
                | Some (Inr es) \<Rightarrow> Some (Inr (entries resp @ es)))))"

section \<open>Sample data\<close>

definition sampleEntry :: "string \<Rightarrow> int \<Rightarrow> entry" where
  "sampleEntry i d =
     \<lparr>e_id = i, e_date = d, e_text = ''t'', e_effort = 3, e_tags = [],
      e_createdAt = d, e_updatedAt = d\<rparr>"

text \<open>
  New York around the end of summer time on 2024-11-03 at 06:00 UTC: four hours behind
  UTC before it and five hours after. A local time that occurs twice is read with the
  earlier offset.
\<close>

definition newYork :: zone where
  "newYork t isUTC =
     (if isUTC then (if t < 1730613600000 then - 14400000 else - 18000000)
      else (if t < 1730613600000 - 14400000 then - 14400000 else - 18000000))"

definition sampleRow :: "string \<Rightarrow> int \<Rightarrow> string \<Rightarrow> row" where
  "sampleRow i d ts =
     \<lparr>e_id = i, e_date = d, e_text = ''t'', e_effort = 3, e_tags = ts,
      e_createdAt = d, e_updatedAt = d\<rparr>"

text \<open>Twenty-one rows, inserted in the order of their dates, all without tags.\<close>

definition store21 :: "row list" where
  "store21 =
     map (\<lambda>(i, d). sampleRow i d ''[]'')
       [(''e01'', 1), (''e02'', 2), (''e03'', 3), (''e04'', 4), (''e05'', 5), (''e06'', 6),
        (''e07'', 7), (''e08'', 8), (''e09'', 9), (''e10'', 10), (''e11'', 11), (''e12'', 12),
        (''e13'', 13), (''e14'', 14), (''e15'', 15), (''e16'', 16), (''e17'', 17),
        (''e18'', 18), (''e19'', 19), (''e20'', 20), (''e21'', 21)]"

text \<open>Three rows, the first two inserted with the same date.\<close>

definition storeTies :: "row list" where
  "storeTies = [sampleRow ''a'' 5 ''[]'', sampleRow ''b'' 5 ''[]'', sampleRow ''c'' 7 ''[]'']"

section \<open>Properties of the streak\<close>

declare calcStreak_loop.simps [simp del]

lemma calcStreak_loop_takeWhile:
  "calcStreak_loop tza (setHours0 tza (TimeClip now)) es i streak =
     streak + length (takeWhile (day_matches tza now es) [i..<length es])"
proof (induction tza "setHours0 tza (TimeClip now)" es i streak rule: calcStreak_loop.induct)
  case (1 tza es i streak)
  show ?case
  proof (cases "i < length es")
    case False
    then show ?thesis
      by (simp add: calcStreak_loop.simps [of tza _ es i streak])
  next
    case True
    then have upt: "[i..<length es] = i # [i + 1..<length es]"
      by (simp add: upt_conv_Cons)
    show ?thesis
    proof (cases "day_matches tza now es i")
      case True
      with \<open>i < length es\<close> 1 show ?thesis
        by (simp add: calcStreak_loop.simps [of tza _ es i streak] upt
            day_matches_def del: upt_Suc)
    next
      case False
      with \<open>i < length es\<close> show ?thesis
        by (simp add: calcStreak_loop.simps [of tza _ es i streak] upt
            day_matches_def del: upt_Suc)
    qed
  qed
qed

lemma calcStreak_takeWhile:
  "calcStreak tza now es =
     length (takeWhile (day_matches tza now es) [0..<length es])"
  by (simp add: calcStreak_def calcStreak_loop_takeWhile)

lemma takeWhile_upt_stop:
  assumes "k \<le> n" and "\<forall>i<k. P i" and "k < n \<longrightarrow> \<not> P k"
  shows "takeWhile P [0..<n] = [0..<k]"
proof -
  have split: "[0..<n] = [0..<k] @ [k..<n]"
    using assms(1) by (metis le_add_diff_inverse upt_add_eq_append zero_le)
  have "takeWhile P [k..<n] = []"
  proof (cases "k < n")
    case True
    with assms(3) show ?thesis by (simp add: upt_conv_Cons)
  next
    case False
    then show ?thesis by simp
  qed
  with assms(2) show ?thesis
    unfolding split by (simp add: takeWhile_append)
qed


lemma calcStreak_eqI:
  assumes "k \<le> length es" and "\<forall>i<k. day_matches tza now es i"
    and "k < length es \<longrightarrow> \<not> day_matches tza now es k"
  shows "calcStreak tza now es = k"
proof -
  have "takeWhile (day_matches tza now es) [0..<length es] = [0..<k]"
    using assms by (rule takeWhile_upt_stop)
  then have "length (takeWhile (day_matches tza now es) [0..<length es]) = length [0..<k]"
    by (rule arg_cong)
  then show ?thesis
    by (simp add: calcStreak_takeWhile)
qed




lemma UTC_midnight_inject:
  assumes "offsetsWithinADay tza"
    and "UTC tza (MakeDate d 0) = UTC tza (MakeDate d' 0)"
  shows "d = d'"
proof -
  have eq: "MakeDate d 0 - MakeDate d' 0
      = tza (MakeDate d 0) False - tza (MakeDate d' 0) False"
    using assms(2) by (simp add: UTC_def)
  have "\<bar>tza (MakeDate d 0) False - tza (MakeDate d' 0) False\<bar> < 86400000"
    using assms(1) by (simp add: offsetsWithinADay_def msPerDay_def)
  with eq have "\<bar>(d - d') * 86400000\<bar> < 86400000"
    by (simp add: MakeDate_def msPerDay_def algebra_simps)
  then show ?thesis
    by (cases "d < d'"; cases "d' < d") auto
qed

text \<open>
  The test read on the calendar. Where today's local midnight is a local time of its own
  day and the instants at hand are time values, the entry at index \<open>i\<close> matches exactly
  when its local calendar day is the \<open>i\<close>-th before today's.
\<close>

lemma day_matches_calendar:
  assumes zone: "offsetsWithinADay tza"
    and today: "setHours0 tza (TimeClip now) = Some today"
    and midnight: "LocalTime tza today = MakeDate (localDay tza now) 0"
    and entry: "setHours0 tza (TimeClip (e_date (es ! i))) \<noteq> None"
    and expected: "expectedDate tza (Some today) i \<noteq> None"
  shows "day_matches tza now es i
     \<longleftrightarrow> localDay tza (e_date (es ! i)) = localDay tza now - int i"
proof -
  let ?d = "e_date (es ! i)"
  have e: "setHours0 tza (TimeClip ?d) = Some (UTC tza (MakeDate (localDay tza ?d) 0))"
    using entry by (auto simp: setHours0_def TimeClip_def localDay_def split: if_splits)
  have day: "Day (MakeDate (localDay tza now) 0) = localDay tza now"
    and time: "TimeWithinDay (MakeDate (localDay tza now) 0) = 0"
    by (simp_all add: Day_def TimeWithinDay_def MakeDate_def msPerDay_def)
  have x: "expectedDate tza (Some today) i
      = Some (UTC tza (MakeDate (localDay tza now - int i) 0))"
    using expected
    by (auto simp: expectedDate_def Let_def midnight day time TimeClip_def split: if_splits)
  have "day_matches tza now es i
      \<longleftrightarrow> UTC tza (MakeDate (localDay tza ?d) 0)
          = UTC tza (MakeDate (localDay tza now - int i) 0)"
    by (simp add: day_matches_def today e x sameTime_def)
  also have "\<dots> \<longleftrightarrow> localDay tza ?d = localDay tza now - int i"
    using UTC_midnight_inject [OF zone] by auto
  finally show ?thesis .
qed

lemmas Date_defs =
  day_matches_def sameTime_def setHours0_def expectedDate_def TimeClip_def UTC_def
  LocalTime_def MakeDate_def Day_def TimeWithinDay_def localDay_def msPerDay_def Let_def


text \<open>
  C1. \<open>calcStreak\<close> returns the length of the longest prefix of the sequence in which the
  entry at index \<open>i\<close>, normalised to local midnight, is today's local midnight minus \<open>i\<close>
  days: the empty sequence gives 0, the count stops at the first index that does not
  match, and a sequence that matches at every index gives its length. This holds in
  every time zone, and the order of the sequence plays no part.
\<close>

theorem calcStreak_longest_matching_prefix:
  "calcStreak tza now es = length (takeWhile (day_matches tza now es) [0..<length es])
   \<and> calcStreak tza now [] = 0
   \<and> (\<forall>k\<le>length es.
        (\<forall>i<k. day_matches tza now es i) \<and> (k < length es \<longrightarrow> \<not> day_matches tza now es k)
        \<longrightarrow> calcStreak tza now es = k)
   \<and> ((\<forall>i<length es. day_matches tza now es i) \<longrightarrow> calcStreak tza now es = length es)"
proof (intro conjI allI impI)
  show "calcStreak tza now es = length (takeWhile (day_matches tza now es) [0..<length es])"
    by (rule calcStreak_takeWhile)
  show "calcStreak tza now [] = 0"
    by (simp add: calcStreak_def)
next
  fix k
  assume "k \<le> length es"
    and "(\<forall>i<k. day_matches tza now es i) \<and> (k < length es \<longrightarrow> \<not> day_matches tza now es k)"
  then show "calcStreak tza now es = k"
    by (intro calcStreak_eqI) auto
next
  assume "\<forall>i<length es. day_matches tza now es i"
  then show "calcStreak tza now es = length es"
    by (intro calcStreak_eqI) auto
qed


theorem calcStreak_longest_matching_prefix_witness:
  "calcStreak newYork 1730818800000
     [sampleEntry ''c'' 1730815200000, sampleEntry ''b'' 1730750400000,
      sampleEntry ''a'' 1730608200000] = 3
   \<and> calcStreak newYork 1730818800000
     [sampleEntry ''c'' 1730815200000, sampleEntry ''b'' 1730750400000,
      sampleEntry ''z'' 1730577600000] = 2"
proof -
  let ?now = "1730818800000 :: int"
  let ?c = "sampleEntry ''c'' 1730815200000" and ?b = "sampleEntry ''b'' 1730750400000"
    and ?a = "sampleEntry ''a'' 1730608200000" and ?z = "sampleEntry ''z'' 1730577600000"
  let ?P = "day_matches newYork ?now [?c, ?b, ?a]"
    and ?Q = "day_matches newYork ?now [?c, ?b, ?z]"
  have p: "?P 0" "?P (Suc 0)" "?P (Suc (Suc 0))"
    by (simp_all add: Date_defs newYork_def sampleEntry_def)
  have q: "?Q 0" "?Q (Suc 0)" "\<not> ?Q 2"
    by (simp_all add: Date_defs newYork_def sampleEntry_def)
  have two: "i = 0 \<or> i = Suc 0" if "i < 2" for i :: nat
    using that by (rule less_2_cases)
  have three: "i = 0 \<or> i = Suc 0 \<or> i = Suc (Suc 0)" if "i < 3" for i :: nat
    using that by arith
  have len: "length [?c, ?b, ?a] = 3" "length [?c, ?b, ?z] = 3"
    by simp_all
  have "\<forall>i<length [?c, ?b, ?a]. ?P i"
    unfolding len using p three by blast
  then have "calcStreak newYork ?now [?c, ?b, ?a] = length [?c, ?b, ?a]"
    using calcStreak_longest_matching_prefix [of newYork ?now "[?c, ?b, ?a]"] by blast
  moreover have "\<forall>i<2. ?Q i"
    using q two by blast
  then have "(2::nat) \<le> length [?c, ?b, ?z]
      \<and> (\<forall>i<2. ?Q i) \<and> (2 < length [?c, ?b, ?z] \<longrightarrow> \<not> ?Q 2)"
    unfolding len using q by simp
  then have "calcStreak newYork ?now [?c, ?b, ?z] = 2"
    using calcStreak_longest_matching_prefix [of newYork ?now "[?c, ?b, ?z]"] by blast
  ultimately show ?thesis
    unfolding len by (rule conjI)
qed



section \<open>The encoding of tags is lossless\<close>

lemma hexValue_hexDigit_all: "list_all (\<lambda>d. hexValue (hexDigit d) = Some d) [0..<16]"
  by code_simp

lemma hexValue_hexDigit: "d < 16 \<Longrightarrow> hexValue (hexDigit d) = Some d"
  using hexValue_hexDigit_all by (simp add: list_all_iff del: upt_Suc)

lemma hex4Value_UnicodeEscape:
  assumes "n < 256"
  shows "hex4Value (hexDigit (n div 4096 mod 16)) (hexDigit (n div 256 mod 16))
           (hexDigit (n div 16 mod 16)) (hexDigit (n mod 16)) = Some n"
proof -
  have "n div 4096 = 0" "n div 256 = 0" "n div 16 mod 16 = n div 16"
    using assms by simp_all
  moreover have "n div 16 < 16"
    using assms by simp
  ultimately show ?thesis
    by (simp add: hex4Value_def hexValue_hexDigit)
qed

lemma parseStringBody_quoteChar:
  "parseStringBody (quoteChar c @ rest) = consResult c (parseStringBody rest)"
proof (cases "(of_char c :: nat) < 32")
  case False
  then show ?thesis
    by (auto simp: quoteChar_def unescapeChar_def)
next
  case True
  have n: "(of_char c :: nat) < 256" using True by simp
  show ?thesis
    using True hex4Value_UnicodeEscape [OF n]
    by (auto simp: quoteChar_def unescapeChar_def UnicodeEscape_def)
qed

lemma parseStringBody_quoted:
  "parseStringBody (concat (map quoteChar s) @ CHR 0x22 # rest) = Some (s, rest)"
  by (induction s) (simp_all add: parseStringBody_quoteChar consResult_def)

declare parseElements.simps [simp del]

lemma skipWs_quote [simp]: "skipWs (CHR 0x22 # cs) = CHR 0x22 # cs"
  by (simp add: skipWs_def isJsonWhitespace_def)

lemma skipWs_punct [simp]:
  "skipWs (CHR '','' # cs) = CHR '','' # cs"
  "skipWs (CHR '']'' # cs) = CHR '']'' # cs"
  "skipWs (CHR ''['' # cs) = CHR ''['' # cs"
  "skipWs [] = []"
  by (simp_all add: skipWs_def isJsonWhitespace_def)

lemma parseElements_joinComma:
  "parseElements (joinComma (map QuoteJSONString (x # xs)) @ CHR '']'' # rest)
     = Some (x # xs, rest)"
proof (induction xs arbitrary: x)
  case Nil
  show ?case
    by (simp add: parseElements.simps [of "CHR 0x22 # _"] QuoteJSONString_def
        parseStringBody_quoted)
next
  case (Cons y ys)
  have "parseElements (joinComma (map QuoteJSONString (x # y # ys)) @ CHR '']'' # rest)
      = consResult x (parseElements (joinComma (map QuoteJSONString (y # ys)) @ CHR '']'' # rest))"
    by (simp add: parseElements.simps [of "CHR 0x22 # _"] QuoteJSONString_def
        parseStringBody_quoted)
  with Cons.IH [of y] show ?case
    by (simp add: consResult_def)
qed

lemma joinComma_quoted_hd:
  "\<exists>t. joinComma (map QuoteJSONString (x # xs)) = CHR 0x22 # t"
  by (cases xs) (simp_all add: QuoteJSONString_def)

lemma JSON_parse_stringify: "JSON_parse (JSON_stringify xs) = Some xs"
proof (cases xs)
  case Nil
  then show ?thesis
    by (simp add: JSON_parse_def JSON_stringify_def)
next
  case (Cons x xs')
  obtain t where t: "joinComma (map QuoteJSONString (x # xs')) = CHR 0x22 # t"
    using joinComma_quoted_hd by blast
  have "parseElements (joinComma (map QuoteJSONString (x # xs')) @ [CHR '']''])
      = Some (x # xs', [])"
    by (rule parseElements_joinComma)
  then have "parseElements (CHR 0x22 # t @ [CHR '']'']) = Some (x # xs', [])"
    using t by simp
  then show ?thesis
    using t by (simp add: Cons JSON_parse_def JSON_stringify_def)
qed

section \<open>Properties of the route handlers\<close>

lemma set_orderBy_date_desc [simp]: "set (orderBy_date_desc store) = set store"
  by (simp add: orderBy_date_desc_def)

lemma length_orderBy_date_desc [simp]: "length (orderBy_date_desc store) = length store"
  by (simp add: orderBy_date_desc_def)

lemma distinct_ids_orderBy_date_desc:
  "distinct (map e_id store) \<Longrightarrow> distinct (map e_id (orderBy_date_desc store))"
  by (simp add: distinct_map orderBy_date_desc_def)

lemma findMany_rowsAfter:
  "findMany store n (case cursorParam ps of None \<Rightarrow> None | Some c \<Rightarrow> Some (c, 1))
     = take n (rowsAfter store (cursorParam ps))"
  by (simp add: findMany_def rowsAfter_def drop_Suc split: option.splits)

lemma take_21_cases:
  "(if 20 < length (take 21 xs) then butlast (take 21 xs) else take 21 xs) = take 20 xs"
proof (cases "20 < length xs")
  case True
  then have "butlast (take 21 xs) = take 20 xs"
    by (simp add: butlast_take)
  with True show ?thesis by simp
next
  case False
  then show ?thesis by simp
qed

lemma last_take_21:
  assumes "20 < length xs"
  shows "last (take 21 xs) = xs ! 20"
proof -
  have len: "length (take 21 xs) = 21"
    using assms by simp
  then have "take 21 xs \<noteq> []"
    by auto
  then have "last (take 21 xs) = take 21 xs ! (length (take 21 xs) - 1)"
    by (rule last_conv_nth)
  also have "\<dots> = xs ! 20"
    unfolding len by simp
  finally show ?thesis .
qed

lemma GET_eq:
  "GET store ps =
     (case mapRows (take 20 (rowsAfter store (cursorParam ps))) of
        Inl e \<Rightarrow> Inl e
      | Inr es \<Rightarrow>
          Inr \<lparr>entries = es,
               nextCursor =
                 (if 20 < length (rowsAfter store (cursorParam ps))
                  then Some (e_id (rowsAfter store (cursorParam ps) ! 20)) else None)\<rparr>)"
proof -
  let ?avail = "rowsAfter store (cursorParam ps)"
  have arg: "(case map_of ps ''cursor'' of None \<Rightarrow> None
              | Some c \<Rightarrow> if c \<noteq> [] then Some (c, 1::nat) else None)
      = (case cursorParam ps of None \<Rightarrow> None | Some c \<Rightarrow> Some (c, 1))"
    by (simp add: cursorParam_def split: option.splits)
  have result: "findMany store (20 + 1)
      (case map_of ps ''cursor'' of None \<Rightarrow> None
       | Some c \<Rightarrow> if c \<noteq> [] then Some (c, 1) else None) = take 21 ?avail"
    unfolding arg findMany_rowsAfter by simp
  show ?thesis
    unfolding GET_def Let_def result take_21_cases
    by (simp add: last_take_21 split: sum.splits)
qed

lemma decodeRow_fields:
  "decodeRow r = Inr e \<Longrightarrow> e_id e = e_id r \<and> e_date e = e_date r"
  by (auto simp: decodeRow_def withTags_def split: if_splits option.splits)

lemma mapRows_list_all2:
  "mapRows rs = Inr es \<Longrightarrow> list_all2 (\<lambda>r e. decodeRow r = Inr e) rs es"
  by (induction rs arbitrary: es) (auto split: sum.splits)

lemma decodeRow_error: "decodeRow r = Inl e \<Longrightarrow> e = SyntaxError"
  by (simp add: decodeRow_def split: if_splits option.splits)

lemma mapRows_total:
  "list_all (\<lambda>r. decodeRow r \<noteq> Inl SyntaxError) rs \<Longrightarrow> \<exists>es. mapRows rs = Inr es"
proof (induction rs)
  case Nil
  then show ?case by simp
next
  case (Cons r rs)
  then obtain es where "mapRows rs = Inr es"
    by auto
  moreover from Cons.prems obtain e where "decodeRow r = Inr e"
    by (cases "decodeRow r") (auto dest: decodeRow_error)
  ultimately show ?case by simp
qed

lemma rowsAfter_drop: "\<exists>k. rowsAfter store c = drop k (orderBy_date_desc store)"
proof (cases c)
  case None
  then have "rowsAfter store c = drop 0 (orderBy_date_desc store)"
    by (simp add: rowsAfter_def)
  then show ?thesis ..
next
  case (Some x)
  then have "rowsAfter store c
      = drop (Suc (length (takeWhile (\<lambda>r. e_id r \<noteq> x) (orderBy_date_desc store))))
          (orderBy_date_desc store)"
    by (simp add: rowsAfter_def dropWhile_eq_drop drop_Suc drop_tl)
  then show ?thesis ..
qed

lemma set_rowsAfter: "set (rowsAfter store c) \<subseteq> set store"
proof -
  obtain k where "rowsAfter store c = drop k (orderBy_date_desc store)"
    using rowsAfter_drop by blast
  then show ?thesis
    using set_drop_subset [of k "orderBy_date_desc store"] by simp
qed

lemma page_decodes:
  assumes "wellFormedStore store"
  shows "\<exists>es. mapRows (take n (rowsAfter store c)) = Inr es"
proof (rule mapRows_total)
  have "set (take n (rowsAfter store c)) \<subseteq> set store"
    using set_take_subset set_rowsAfter by fast
  with assms show "list_all (\<lambda>r. decodeRow r \<noteq> Inl SyntaxError) (take n (rowsAfter store c))"
    by (auto simp: wellFormedStore_def list_all_iff)
qed

lemma GET_wellFormed:
  assumes "wellFormedStore store"
  shows "\<exists>es. GET store ps =
           Inr \<lparr>entries = es,
                nextCursor =
                  (if 20 < length (rowsAfter store (cursorParam ps))
                   then Some (e_id (rowsAfter store (cursorParam ps) ! 20)) else None)\<rparr>
         \<and> list_all2 (\<lambda>r e. decodeRow r = Inr e) (take 20 (rowsAfter store (cursorParam ps))) es"
proof -
  obtain es where es: "mapRows (take 20 (rowsAfter store (cursorParam ps))) = Inr es"
    using page_decodes [OF assms] by blast
  then have "list_all2 (\<lambda>r e. decodeRow r = Inr e) (take 20 (rowsAfter store (cursorParam ps))) es"
    by (rule mapRows_list_all2)
  with es show ?thesis
    by (simp add: GET_eq)
qed

lemma decoded_ids:
  "list_all2 (\<lambda>r e. decodeRow r = Inr e) rs es \<Longrightarrow> map e_id es = map e_id rs"
  by (induction rule: list_all2_induct) (simp_all add: decodeRow_fields)

lemma wellFormedStore_store21: "wellFormedStore store21"
  by code_simp

lemma rowsAfter_store21: "length (rowsAfter store21 (cursorParam [])) = 21"
  by code_simp

text \<open>
  C4. \<open>GET\<close> asks \<open>findMany\<close> for 21 rows. The page holds the first 20 of the rows that
  follow the cursor, so at most 20 entries; \<open>nextCursor\<close> is the id of the 21st row when
  there is one and \<open>null\<close> otherwise, so it is set exactly when rows remain beyond the page.
\<close>

theorem GET_page_and_nextCursor:
  assumes "wellFormedStore store"
  shows "\<exists>resp. GET store ps = Inr resp
     \<and> findMany store 21 (case cursorParam ps of None \<Rightarrow> None | Some c \<Rightarrow> Some (c, 1))
         = take 21 (rowsAfter store (cursorParam ps))
     \<and> list_all2 (\<lambda>r e. decodeRow r = Inr e)
         (take 20 (rowsAfter store (cursorParam ps))) (entries resp)
     \<and> length (entries resp) \<le> 20
     \<and> nextCursor resp =
         (if 20 < length (rowsAfter store (cursorParam ps))
          then Some (e_id (rowsAfter store (cursorParam ps) ! 20)) else None)
     \<and> (nextCursor resp \<noteq> None
          \<longleftrightarrow> length (entries resp) < length (rowsAfter store (cursorParam ps)))"
proof -
  let ?avail = "rowsAfter store (cursorParam ps)"
  obtain es where get: "GET store ps =
      Inr \<lparr>entries = es,
           nextCursor = (if 20 < length ?avail then Some (e_id (?avail ! 20)) else None)\<rparr>"
    and rel: "list_all2 (\<lambda>r e. decodeRow r = Inr e) (take 20 ?avail) es"
    using GET_wellFormed [OF assms] by blast
  have len: "length es = min (length ?avail) 20"
    using list_all2_lengthD [OF rel] by simp
  show ?thesis
    using get rel len by (simp add: findMany_rowsAfter)
qed

theorem GET_page_and_nextCursor_witness:
  "\<exists>resp. GET store21 [] = Inr resp \<and> length (entries resp) \<le> 20
     \<and> nextCursor resp \<noteq> None"
  using GET_page_and_nextCursor [OF wellFormedStore_store21, of "[]"] rowsAfter_store21
  by auto

lemma not_in_after_first:
  "distinct (map f xs) \<Longrightarrow> x \<notin> f ` set (tl (dropWhile (\<lambda>r. f r \<noteq> x) xs))"
  by (induction xs) auto

text \<open>
  C5. A page asked for with the id of a stored entry as cursor does not hold that entry.
\<close>

theorem GET_cursor_exclusive:
  assumes "wellFormedStore store" and "x \<in> e_id ` set store"
    and "map_of ps ''cursor'' = Some x"
  shows "\<exists>resp. GET store ps = Inr resp \<and> x \<notin> e_id ` set (entries resp)"
proof -
  from assms(1,2) have "x \<noteq> []"
    by (auto simp: wellFormedStore_def list_all_iff)
  with assms(3) have cur: "cursorParam ps = Some x"
    by (simp add: cursorParam_def)
  let ?avail = "rowsAfter store (Some x)"
  obtain es where get: "GET store ps =
      Inr \<lparr>entries = es,
           nextCursor = (if 20 < length ?avail then Some (e_id (?avail ! 20)) else None)\<rparr>"
    and rel: "list_all2 (\<lambda>r e. decodeRow r = Inr e) (take 20 ?avail) es"
    using GET_wellFormed [OF assms(1), of ps] unfolding cur by blast
  have "distinct (map e_id (orderBy_date_desc store))"
    using assms(1) by (simp add: wellFormedStore_def distinct_ids_orderBy_date_desc)
  then have "x \<notin> e_id ` set ?avail"
    unfolding rowsAfter_def by (simp add: not_in_after_first)
  then have "x \<notin> e_id ` set (take 20 ?avail)"
    using set_take_subset [of 20 ?avail] by blast
  moreover have "e_id ` set es = e_id ` set (take 20 ?avail)"
    using decoded_ids [OF rel] by (metis set_map)
  ultimately show ?thesis
    using get by simp
qed

theorem GET_cursor_exclusive_witness:
  "\<exists>resp. GET store21 [(''cursor'', ''e05'')] = Inr resp \<and> ''e05'' \<notin> e_id ` set (entries resp)"
proof -
  have "''e05'' \<in> e_id ` set store21"
    by code_simp
  moreover have "map_of [(''cursor'', ''e05'')] ''cursor'' = Some ''e05''"
    by simp
  ultimately show ?thesis
    using GET_cursor_exclusive [OF wellFormedStore_store21] by blast
qed

text \<open>
  C10. The response of \<open>GET\<close> depends on the query through the first value of \<open>cursor\<close>
  alone and holds at most 20 entries. A \<open>page\<close> parameter, the one the page component
  sends, changes nothing: with it the response is the one for the query without it.
\<close>

theorem GET_reads_cursor_only:
  "(map_of ps ''cursor'' = map_of ps' ''cursor'' \<longrightarrow> GET store ps = GET store ps')
   \<and> GET store ((''page'', p) # ps) = GET store ((''page'', q) # ps)
   \<and> GET store [(''page'', p)] = GET store []
   \<and> (\<forall>resp. GET store ps = Inr resp \<longrightarrow> length (entries resp) \<le> 20)"
proof (intro conjI impI allI)
  assume "map_of ps ''cursor'' = map_of ps' ''cursor''"
  then show "GET store ps = GET store ps'"
    by (simp add: GET_def)
next
  show "GET store ((''page'', p) # ps) = GET store ((''page'', q) # ps)"
    by (simp add: GET_def)
  show "GET store [(''page'', p)] = GET store []"
    by (simp add: GET_def)
next
  fix resp
  assume "GET store ps = Inr resp"
  then obtain es where "mapRows (take 20 (rowsAfter store (cursorParam ps))) = Inr es"
    and "entries resp = es"
    by (auto simp: GET_eq split: sum.splits)
  then show "length (entries resp) \<le> 20"
    using list_all2_lengthD [OF mapRows_list_all2] by fastforce
qed

theorem GET_reads_cursor_only_witness:
  "GET store21 [(''page'', ''2''), (''cursor'', ''e05'')] = GET store21 [(''cursor'', ''e05'')]
   \<and> (\<exists>resp. GET store21 [(''page'', ''2'')] = Inr resp \<and> length (entries resp) \<le> 20)"
proof -
  have "map_of [(''page'', ''2''), (''cursor'', ''e05'')] ''cursor''
      = map_of [(''cursor'', ''e05'')] ''cursor''"
    by simp
  then have "GET store21 [(''page'', ''2''), (''cursor'', ''e05'')]
      = GET store21 [(''cursor'', ''e05'')]"
    using GET_reads_cursor_only [of "[(''page'', ''2''), (''cursor'', ''e05'')]"
        "[(''cursor'', ''e05'')]" store21] by blast
  moreover obtain resp where r: "GET store21 [(''page'', ''2'')] = Inr resp"
    using GET_wellFormed [OF wellFormedStore_store21, of "[(''page'', ''2'')]"] by blast
  then have "length (entries resp) \<le> 20"
    using GET_reads_cursor_only [of "[(''page'', ''2'')]" _ store21] by blast
  with r have "\<exists>resp. GET store21 [(''page'', ''2'')] = Inr resp \<and> length (entries resp) \<le> 20"
    by blast
  ultimately show ?thesis by simp
qed

section \<open>The order of the timeline\<close>

lemma insort_key_sorted_lex:
  fixes f :: "'a \<Rightarrow> 'k::linorder"
  assumes "sorted_wrt (\<lambda>a b. f a < f b \<or> (f a = f b \<and> Q a b)) ys"
    and "\<forall>y\<in>set ys. Q x y"
  shows "sorted_wrt (\<lambda>a b. f a < f b \<or> (f a = f b \<and> Q a b)) (insort_key f x ys)"
  using assms
proof (induction ys)
  case Nil
  then show ?case by simp
next
  case (Cons y ys)
  show ?case
  proof (cases "f x \<le> f y")
    case True
    have "f x < f z \<or> (f x = f z \<and> Q x z)" if "z \<in> set (y # ys)" for z
    proof -
      have "f y \<le> f z"
        using that Cons.prems(1) by auto
      with True have "f x \<le> f z" by simp
      moreover have "Q x z"
        using that Cons.prems(2) by auto
      ultimately show ?thesis by auto
    qed
    with True Cons.prems(1) show ?thesis by simp
  next
    case False
    then have "f y < f x" by simp
    moreover have "sorted_wrt (\<lambda>a b. f a < f b \<or> (f a = f b \<and> Q a b)) (insort_key f x ys)"
      using Cons by simp
    ultimately show ?thesis
      using False Cons.prems(1) by (auto simp: set_insort_key)
  qed
qed

lemma sort_key_sorted_lex:
  fixes f :: "'a \<Rightarrow> 'k::linorder"
  assumes "sorted_wrt Q xs"
  shows "sorted_wrt (\<lambda>a b. f a < f b \<or> (f a = f b \<and> Q a b)) (sort_key f xs)"
  using assms
proof (induction xs)
  case Nil
  then show ?case by simp
next
  case (Cons x xs)
  then have "sorted_wrt (\<lambda>a b. f a < f b \<or> (f a = f b \<and> Q a b)) (sort_key f xs)"
    and "\<forall>y\<in>set (sort_key f xs). Q x y"
    by simp_all
  then have "sorted_wrt (\<lambda>a b. f a < f b \<or> (f a = f b \<and> Q a b))
      (insort_key f x (sort_key f xs))"
    by (rule insort_key_sorted_lex)
  then show ?case
    by (simp add: sort_key_def)
qed

lemma insertionIndex_nth:
  assumes "distinct (map e_id store)" and "i < length store"
  shows "insertionIndex store (e_id (store ! i)) = i"
  using assms
proof (induction store arbitrary: i)
  case Nil
  then show ?case by simp
next
  case (Cons r rs)
  show ?case
  proof (cases i)
    case 0
    then show ?thesis by (simp add: insertionIndex_def)
  next
    case (Suc k)
    with Cons.prems have "e_id (rs ! k) \<in> e_id ` set rs"
      by simp
    with Cons.prems have "e_id r \<noteq> e_id (rs ! k)"
      by auto
    with Cons Suc show ?thesis
      by (simp add: insertionIndex_def)
  qed
qed

lemma store_sorted_by_insertion:
  assumes "distinct (map e_id store)"
  shows "sorted_wrt (\<lambda>a b. insertionIndex store (e_id a) < insertionIndex store (e_id b)) store"
  using assms by (simp add: sorted_wrt_iff_nth_less insertionIndex_nth)

lemma orderBy_date_desc_newerFirst:
  assumes "distinct (map e_id store)"
  shows "sorted_wrt (newerFirst store) (orderBy_date_desc store)"
proof -
  let ?Q = "\<lambda>a b :: row. insertionIndex store (e_id b) < insertionIndex store (e_id a)"
  have "sorted_wrt ?Q (rev store)"
    using store_sorted_by_insertion [OF assms] by (simp add: sorted_wrt_rev)
  then have "sorted_wrt (\<lambda>a b. - e_date a < - e_date b \<or> (- e_date a = - e_date b \<and> ?Q a b))
      (sort_key (\<lambda>r. - e_date r) (rev store))"
    by (rule sort_key_sorted_lex)
  then show ?thesis
    by (simp add: orderBy_date_desc_def newerFirst_def [abs_def])
qed

lemma sorted_wrt_decoded:
  assumes "list_all2 (\<lambda>r e. decodeRow r = Inr e) rs es"
    and "sorted_wrt (newerFirst store) rs"
  shows "sorted_wrt (newerFirst store) es"
proof -
  have len: "length es = length rs"
    using assms(1) by (simp add: list_all2_lengthD)
  have same: "e_id (es ! i) = e_id (rs ! i) \<and> e_date (es ! i) = e_date (rs ! i)"
    if "i < length rs" for i
    using list_all2_nthD [OF assms(1) that] by (rule decodeRow_fields)
  show ?thesis
    unfolding sorted_wrt_iff_nth_less
  proof (intro allI impI)
    fix i j
    assume "i < j" and "j < length es"
    then have "i < length rs" and "j < length rs"
      using len by simp_all
    moreover have "newerFirst store (rs ! i) (rs ! j)"
      using assms(2) \<open>i < j\<close> \<open>j < length rs\<close> by (simp add: sorted_wrt_iff_nth_less)
    ultimately show "newerFirst store (es ! i) (es ! j)"
      using same by (simp add: newerFirst_def)
  qed
qed

lemma wellFormedStore_storeTies: "wellFormedStore storeTies"
  by code_simp

text \<open>
  C6. Every page is a run of consecutive entries of one list, the rows of the store by
  date descending with rows of equal date newest-inserted first; so a page is ordered by
  date descending, entries of equal date appear newest-inserted first, and the order is
  the same at every call.
\<close>

theorem GET_page_order:
  assumes "wellFormedStore store"
  shows "\<exists>resp. GET store ps = Inr resp
     \<and> sorted_wrt (newerFirst store) (entries resp)
     \<and> sorted_wrt (\<lambda>a b. e_date b \<le> e_date a) (entries resp)
     \<and> (\<exists>pre post. map e_id (orderBy_date_desc store)
           = pre @ map e_id (entries resp) @ post)"
proof -
  let ?ordered = "orderBy_date_desc store"
  let ?avail = "rowsAfter store (cursorParam ps)"
  obtain es where get: "GET store ps =
      Inr \<lparr>entries = es,
           nextCursor = (if 20 < length ?avail then Some (e_id (?avail ! 20)) else None)\<rparr>"
    and rel: "list_all2 (\<lambda>r e. decodeRow r = Inr e) (take 20 ?avail) es"
    using GET_wellFormed [OF assms] by blast
  obtain k where k: "?avail = drop k ?ordered"
    using rowsAfter_drop by blast
  have "sorted_wrt (newerFirst store) ?ordered"
    using assms by (simp add: wellFormedStore_def orderBy_date_desc_newerFirst)
  then have "sorted_wrt (newerFirst store) (take 20 ?avail)"
    unfolding k by simp
  then have sorted: "sorted_wrt (newerFirst store) es"
    using rel by (rule sorted_wrt_decoded [rotated])
  then have dates: "sorted_wrt (\<lambda>a b. e_date b \<le> e_date a) es"
    by (rule sorted_wrt_mono_rel [rotated]) (auto simp: newerFirst_def)
  have "?ordered = take k ?ordered @ take 20 (drop k ?ordered) @ drop 20 (drop k ?ordered)"
    by (simp only: append_take_drop_id)
  then have "map e_id ?ordered
      = map e_id (take k ?ordered) @ map e_id (take 20 ?avail) @ map e_id (drop 20 ?avail)"
    unfolding k by (metis map_append)
  then have "map e_id ?ordered
      = map e_id (take k ?ordered) @ map e_id es @ map e_id (drop 20 ?avail)"
    using decoded_ids [OF rel] by simp
  then have "\<exists>pre post. map e_id ?ordered = pre @ map e_id es @ post"
    by blast
  with get sorted dates show ?thesis
    by simp
qed

theorem GET_page_order_witness:
  "\<exists>resp. GET storeTies [] = Inr resp
     \<and> map e_id (entries resp) = [''c'', ''b'', ''a'']
     \<and> sorted_wrt (newerFirst storeTies) (entries resp)"
proof -
  obtain resp where r: "GET storeTies [] = Inr resp"
    and s: "sorted_wrt (newerFirst storeTies) (entries resp)"
    using GET_page_order [OF wellFormedStore_storeTies, of "[]"] by blast
  have "GET storeTies [] =
      Inr \<lparr>entries = [withTags (sampleRow ''c'' 7 ''[]'') [], withTags (sampleRow ''b'' 5 ''[]'') [],
                       withTags (sampleRow ''a'' 5 ''[]'') []],
           nextCursor = None\<rparr>"
    by code_simp
  with r have "map e_id (entries resp) = [''c'', ''b'', ''a'']"
    by (auto simp: withTags_def sampleRow_def)
  with r s show ?thesis
    by (intro exI [of _ resp]) simp
qed

section \<open>Creating entries\<close>

lemma JSON_stringify_not_empty: "JSON_stringify ts \<noteq> []"
  by (simp add: JSON_stringify_def)

lemma decodeRow_stringify:
  "e_tags r = JSON_stringify ts \<Longrightarrow> decodeRow r = Inr (withTags r ts)"
  by (simp add: decodeRow_def JSON_stringify_not_empty JSON_parse_stringify)

lemma POST_accepted:
  assumes "text \<noteq> []" and "effort \<noteq> 0"
  shows "POST store (Some (new_id, now))
       \<lparr>b_text = Some text, b_effort = Some effort, b_tags = tags\<rparr> =
     (let ts = (case tags of None \<Rightarrow> [] | Some ts \<Rightarrow> ts);
          r = \<lparr>e_id = new_id, e_date = now, e_text = text, e_effort = effort,
               e_tags = JSON_stringify ts, e_createdAt = now, e_updatedAt = now\<rparr>
      in (Inr (Created_201 (withTags r ts)), store @ [r]))"
  using assms by (simp add: POST_def create_def Let_def JSON_parse_stringify)

lemma POST_storage_failure:
  assumes "text \<noteq> []" and "effort \<noteq> 0"
  shows "POST store None \<lparr>b_text = Some text, b_effort = Some effort, b_tags = tags\<rparr>
      = (Inl StorageFailure, store)"
  using assms by (simp add: POST_def create_def)

lemma POST_rejected_iff:
  "fst (POST store assigned body) = Inr BadRequest_400
     \<longleftrightarrow> b_text body = None \<or> b_text body = Some [] \<or> b_effort body = None
         \<or> b_effort body = Some 0"
  by (auto simp: POST_def create_def Let_def split: option.splits prod.splits)

lemma POST_rejected_store:
  "fst (POST store assigned body) = Inr BadRequest_400
     \<Longrightarrow> snd (POST store assigned body) = store"
  by (auto simp: POST_def create_def Let_def split: option.splits prod.splits if_splits)

lemma wellFormedStore_append:
  assumes "wellFormedStore store" and "e_id r \<noteq> []" and "e_id r \<notin> e_id ` set store"
    and "decodeRow r \<noteq> Inl SyntaxError"
  shows "wellFormedStore (store @ [r])"
  using assms by (auto simp: wellFormedStore_def)

text \<open>
  The tables that \<open>POST\<close> builds from the empty one are well formed, as long as the store
  assigns ids that are new and not empty.
\<close>

lemma wellFormedStore_empty: "wellFormedStore []"
  by (simp add: wellFormedStore_def)

lemma wellFormedStore_POST:
  assumes "wellFormedStore store"
    and "assigned = None \<or> (\<exists>new_id now. assigned = Some (new_id, now) \<and> new_id \<noteq> []
          \<and> new_id \<notin> e_id ` set store)"
  shows "wellFormedStore (snd (POST store assigned body))"
proof (cases "fst (POST store assigned body) = Inr BadRequest_400")
  case True
  then show ?thesis
    using assms(1) by (simp add: POST_rejected_store)
next
  case False
  then obtain t n where body: "b_text body = Some t" "t \<noteq> []" "b_effort body = Some n" "n \<noteq> 0"
    unfolding POST_rejected_iff by auto
  have "body = \<lparr>b_text = Some t, b_effort = Some n, b_tags = b_tags body\<rparr>"
    using body by simp
  then have post: "POST store assigned body
      = POST store assigned \<lparr>b_text = Some t, b_effort = Some n, b_tags = b_tags body\<rparr>"
    by (rule arg_cong)
  show ?thesis
  proof (cases assigned)
    case None
    then show ?thesis
      using assms(1) body(2,4) unfolding post by (simp add: POST_storage_failure)
  next
    case (Some a)
    with assms(2) obtain new_id now where a: "assigned = Some (new_id, now)"
      and fresh: "new_id \<noteq> []" "new_id \<notin> e_id ` set store"
      by auto
    define ts where "ts = (case b_tags body of None \<Rightarrow> [] | Some ts \<Rightarrow> ts)"
    define r :: row where "r = \<lparr>e_id = new_id, e_date = now, e_text = t, e_effort = n,
               e_tags = JSON_stringify ts, e_createdAt = now, e_updatedAt = now\<rparr>"
    have "snd (POST store assigned body)
        = snd (POST store (Some (new_id, now))
            \<lparr>b_text = Some t, b_effort = Some n, b_tags = b_tags body\<rparr>)"
      using post a by simp
    also have "\<dots> = store @ [r]"
      using body(2,4) by (simp add: POST_accepted Let_def r_def ts_def)
    finally have "snd (POST store assigned body) = store @ [r]" .
    moreover have "decodeRow r = Inr (withTags r ts)"
      by (rule decodeRow_stringify) (simp add: r_def)
    ultimately show ?thesis
      using assms(1) fresh by (simp add: wellFormedStore_append r_def)
  qed
qed

lemma insort_key_least:
  "\<forall>y\<in>set ys. f x \<le> f y \<Longrightarrow> insort_key f x ys = x # ys"
  by (cases ys) simp_all

lemma orderBy_date_desc_newest:
  assumes "\<forall>y\<in>set store. e_date y \<le> e_date r"
  shows "orderBy_date_desc (store @ [r]) = r # orderBy_date_desc store"
proof -
  have "sort_key (\<lambda>r. - e_date r) (r # rev store)
      = insort_key (\<lambda>r. - e_date r) r (sort_key (\<lambda>r. - e_date r) (rev store))"
    by (simp add: sort_key_def)
  also have "\<dots> = r # sort_key (\<lambda>r. - e_date r) (rev store)"
    using assms by (intro insort_key_least) simp
  finally show ?thesis
    by (simp add: orderBy_date_desc_def)
qed

text \<open>
  C7. A \<open>POST\<close> with any list of tags that the store takes in answers with that list and
  stores its JSON text; every later \<open>GET\<close> shows the new entry with the same list, and the first page
  starts with it when no stored date is later than its own. Without a tag list the stored
  text is that of the empty array and the list read back is empty.
\<close>

theorem tags_round_trip:
  assumes "wellFormedStore store" and "new_id \<noteq> []" and "new_id \<notin> e_id ` set store"
    and "text \<noteq> []" and "effort \<noteq> 0"
  shows "\<exists>created r.
     POST store (Some (new_id, now))
         \<lparr>b_text = Some text, b_effort = Some effort, b_tags = tags\<rparr>
       = (Inr (Created_201 created), store @ [r])
     \<and> e_id created = new_id
     \<and> e_tags created = (case tags of None \<Rightarrow> [] | Some ts \<Rightarrow> ts)
     \<and> e_tags r = JSON_stringify (case tags of None \<Rightarrow> [] | Some ts \<Rightarrow> ts)
     \<and> (tags = None \<longrightarrow> e_tags r = ''[]'')
     \<and> (\<forall>ps. \<exists>resp. GET (store @ [r]) ps = Inr resp
            \<and> (\<forall>e\<in>set (entries resp).
                  e_id e = new_id \<longrightarrow> e_tags e = (case tags of None \<Rightarrow> [] | Some ts \<Rightarrow> ts)))
     \<and> ((\<forall>y\<in>set store. e_date y \<le> now)
          \<longrightarrow> (\<exists>resp rest. GET (store @ [r]) [] = Inr resp \<and> entries resp = created # rest))"
proof -
  define ts where "ts = (case tags of None \<Rightarrow> [] | Some ts \<Rightarrow> ts)"
  define r :: row where "r = \<lparr>e_id = new_id, e_date = now, e_text = text, e_effort = effort,
             e_tags = JSON_stringify ts, e_createdAt = now, e_updatedAt = now\<rparr>"
  define created where "created = withTags r ts"
  have r_id: "e_id r = new_id" and r_date: "e_date r = now"
    and r_tags: "e_tags r = JSON_stringify ts"
    by (simp_all add: r_def)
  have c_id: "e_id created = new_id" and c_tags: "e_tags created = ts"
    by (simp_all add: created_def withTags_def r_id)
  have post: "POST store (Some (new_id, now))
        \<lparr>b_text = Some text, b_effort = Some effort, b_tags = tags\<rparr>
      = (Inr (Created_201 created), store @ [r])"
    using assms(4,5) by (simp add: POST_accepted Let_def created_def r_def ts_def)
  have dec: "decodeRow r = Inr created"
    unfolding created_def using r_tags by (rule decodeRow_stringify)
  have wf: "wellFormedStore (store @ [r])"
    using assms(1-3) by (intro wellFormedStore_append) (simp_all add: r_id dec)
  have read: "\<exists>resp. GET (store @ [r]) ps = Inr resp
      \<and> (\<forall>e\<in>set (entries resp). e_id e = new_id \<longrightarrow> e_tags e = ts)" for ps
  proof -
    let ?avail = "rowsAfter (store @ [r]) (cursorParam ps)"
    obtain es where get: "GET (store @ [r]) ps =
        Inr \<lparr>entries = es,
             nextCursor = (if 20 < length ?avail then Some (e_id (?avail ! 20)) else None)\<rparr>"
      and rel: "list_all2 (\<lambda>r e. decodeRow r = Inr e) (take 20 ?avail) es"
      using GET_wellFormed [OF wf] by blast
    have "e_tags e = ts" if "e \<in> set es" and "e_id e = new_id" for e
    proof -
      from that(1) obtain i where i: "i < length es" and e: "es ! i = e"
        unfolding in_set_conv_nth by blast
      have len: "length (take 20 ?avail) = length es"
        using rel by (rule list_all2_lengthD)
      define x where "x = take 20 ?avail ! i"
      have d: "decodeRow x = Inr e"
        unfolding x_def e [symmetric] using rel i by (rule list_all2_nthD2)
      have "x \<in> set (take 20 ?avail)"
        unfolding x_def using i len by (intro nth_mem) (simp del: length_take)
      then have "x \<in> set (store @ [r])"
        using set_take_subset set_rowsAfter by fast
      then have "x \<in> set store \<or> x = r"
        by auto
      moreover have "e_id x = new_id"
        using decodeRow_fields [OF d] that(2) by simp
      then have "x \<notin> set store"
        using assms(3) by blast
      ultimately have "x = r"
        by blast
      with d dec have "e = created"
        by simp
      then show ?thesis
        by (simp add: c_tags)
    qed
    with get show ?thesis by simp
  qed
  have first: "\<exists>resp rest. GET (store @ [r]) [] = Inr resp \<and> entries resp = created # rest"
    if newest: "\<forall>y\<in>set store. e_date y \<le> now"
  proof -
    let ?avail = "rowsAfter (store @ [r]) (cursorParam [])"
    obtain es where get: "GET (store @ [r]) [] =
        Inr \<lparr>entries = es,
             nextCursor = (if 20 < length ?avail then Some (e_id (?avail ! 20)) else None)\<rparr>"
      and rel: "list_all2 (\<lambda>r e. decodeRow r = Inr e) (take 20 ?avail) es"
      using GET_wellFormed [OF wf] by blast
    have "orderBy_date_desc (store @ [r]) = r # orderBy_date_desc store"
      using newest by (intro orderBy_date_desc_newest) (simp add: r_date)
    then have "?avail = r # orderBy_date_desc store"
      by (simp add: rowsAfter_def cursorParam_def)
    then have "take 20 ?avail = r # take 19 (orderBy_date_desc store)"
      by (simp add: take_Cons')
    with rel obtain e rest where "es = e # rest" and "decodeRow r = Inr e"
      by (auto simp: list_all2_Cons1)
    with dec get show ?thesis by simp
  qed
  have none: "e_tags r = ''[]''" if "tags = None"
    using that by (simp add: r_tags ts_def JSON_stringify_def)
  have "POST store (Some (new_id, now))
         \<lparr>b_text = Some text, b_effort = Some effort, b_tags = tags\<rparr>
       = (Inr (Created_201 created), store @ [r])
     \<and> e_id created = new_id
     \<and> e_tags created = ts
     \<and> e_tags r = JSON_stringify ts
     \<and> (tags = None \<longrightarrow> e_tags r = ''[]'')
     \<and> (\<forall>ps. \<exists>resp. GET (store @ [r]) ps = Inr resp
            \<and> (\<forall>e\<in>set (entries resp). e_id e = new_id \<longrightarrow> e_tags e = ts))
     \<and> ((\<forall>y\<in>set store. e_date y \<le> now)
          \<longrightarrow> (\<exists>resp rest. GET (store @ [r]) [] = Inr resp \<and> entries resp = created # rest))"
    using post c_id c_tags r_tags none read first by (intro conjI allI impI)
  then show ?thesis
    unfolding ts_def by (intro exI)
qed

theorem tags_round_trip_witness:
  "\<exists>created r.
     POST storeTies (Some (''n1'', 9))
         \<lparr>b_text = Some ''t'', b_effort = Some 2, b_tags = Some [''a'', ''b'']\<rparr>
       = (Inr (Created_201 created), storeTies @ [r])
     \<and> e_tags created = [''a'', ''b'']
     \<and> (\<exists>resp rest. GET (storeTies @ [r]) [] = Inr resp \<and> entries resp = created # rest)"
proof -
  have fresh: "''n1'' \<notin> e_id ` set storeTies"
    by (simp add: storeTies_def sampleRow_def)
  have newest: "\<forall>y\<in>set storeTies. e_date y \<le> 9"
    by (simp add: storeTies_def sampleRow_def)
  have "''n1'' \<noteq> []" and "''t'' \<noteq> []" and "(2::int) \<noteq> 0"
    by simp_all
  from tags_round_trip [OF wellFormedStore_storeTies this(1) fresh this(2,3),
      of 9 "Some [''a'', ''b'']"] newest
  show ?thesis
    by fastforce
qed

text \<open>
  C2, as stated, fails: \<open>POST\<close> accepts a text of three spaces with effort 3 and stores it.
\<close>

theorem POST_accepts_blank_text:
  "trim ''   '' = []
   \<and> POST [] (Some (''c1'', 5)) \<lparr>b_text = Some ''   '', b_effort = Some 3, b_tags = Some []\<rparr>
     = (Inr (Created_201
          \<lparr>e_id = ''c1'', e_date = 5, e_text = ''   '', e_effort = 3, e_tags = [],
           e_createdAt = 5, e_updatedAt = 5\<rparr>),
        [\<lparr>e_id = ''c1'', e_date = 5, e_text = ''   '', e_effort = 3, e_tags = ''[]'',
          e_createdAt = 5, e_updatedAt = 5\<rparr>])"
  by (simp add: POST_accepted trim_def isWhiteSpace_def withTags_def JSON_stringify_def)

lemma validateInput_rejects_iff:
  "validateInput text \<noteq> None \<longleftrightarrow> trim text = [] \<or> 500 < length text"
  by (simp add: validateInput_def)

lemma addEntry_rejected_iff:
  "fst (addEntry store assigned text effort tags) \<noteq> None
     \<longleftrightarrow> trim text = [] \<or> 500 < length text \<or> effort = 0 \<or> assigned = None"
proof (cases "validateInput text")
  case (Some err)
  then show ?thesis
    using validateInput_rejects_iff [of "text"] by (auto simp: addEntry_def)
next
  case None
  then have ok: "trim text \<noteq> []" "\<not> 500 < length text"
    using validateInput_rejects_iff [of "text"] by simp_all
  show ?thesis
  proof (cases "effort = 0")
    case True
    with None show ?thesis
      by (simp add: addEntry_def POST_def Let_def)
  next
    case False
    show ?thesis
    proof (cases assigned)
      case no_row: None
      with None ok False show ?thesis
        by (simp add: addEntry_def POST_storage_failure Let_def)
    next
      case (Some a)
      then obtain new_id now where "assigned = Some (new_id, now)"
        by (cases a) simp
      with None ok False show ?thesis
        by (simp add: addEntry_def POST_accepted Let_def)
    qed
  qed
qed

lemma addEntry_rejected_store:
  assumes "fst (addEntry store assigned text effort tags) \<noteq> None"
  shows "snd (addEntry store assigned text effort tags) = store"
proof (cases "validateInput text")
  case (Some err)
  then show ?thesis
    by (simp add: addEntry_def)
next
  case None
  then have ok: "trim text \<noteq> []"
    using validateInput_rejects_iff [of "text"] by simp
  show ?thesis
  proof (cases "effort = 0")
    case True
    with None show ?thesis
      by (simp add: addEntry_def POST_def Let_def)
  next
    case False
    show ?thesis
    proof (cases assigned)
      case no_row: None
      with None ok False show ?thesis
        by (simp add: addEntry_def POST_storage_failure Let_def)
    next
      case (Some a)
      then obtain new_id now where "assigned = Some (new_id, now)"
        by (cases a) simp
      with None ok False assms show ?thesis
        by (simp add: addEntry_def POST_accepted Let_def)
    qed
  qed
qed

text \<open>
  C2, amended. \<open>POST\<close> answers 400 exactly when the text is missing or empty or the effort
  is missing or 0, and then the table is as before. A text that is empty or only white
  space, or longer than 500 characters, is refused by \<open>validateInput\<close> of the form, before
  any request: \<open>addEntry\<close> reports an error exactly for such a text, for an effort of 0 and
  when the store fails, and then the table is as before.
\<close>

theorem create_rejections:
  "(fst (POST store assigned body) = Inr BadRequest_400
      \<longleftrightarrow> b_text body = None \<or> b_text body = Some [] \<or> b_effort body = None
          \<or> b_effort body = Some 0)
   \<and> (fst (POST store assigned body) = Inr BadRequest_400
      \<longrightarrow> snd (POST store assigned body) = store)
   \<and> (validateInput text \<noteq> None \<longleftrightarrow> trim text = [] \<or> 500 < length text)
   \<and> (fst (addEntry store assigned text effort tags) \<noteq> None
      \<longleftrightarrow> trim text = [] \<or> 500 < length text \<or> effort = 0 \<or> assigned = None)
   \<and> (fst (addEntry store (Some (new_id, now)) text effort tags) \<noteq> None
      \<longleftrightarrow> trim text = [] \<or> 500 < length text \<or> effort = 0)
   \<and> (fst (addEntry store assigned text effort tags) \<noteq> None
      \<longrightarrow> snd (addEntry store assigned text effort tags) = store)"
  using POST_rejected_iff POST_rejected_store validateInput_rejects_iff
    addEntry_rejected_iff addEntry_rejected_store
  by (intro conjI impI) simp_all

theorem create_rejections_witness:
  "fst (POST storeTies (Some (''n1'', 9))
          \<lparr>b_text = Some ''ok'', b_effort = None, b_tags = Some []\<rparr>)
     = Inr BadRequest_400
   \<and> snd (POST storeTies (Some (''n1'', 9))
          \<lparr>b_text = Some ''ok'', b_effort = None, b_tags = Some []\<rparr>)
     = storeTies
   \<and> fst (addEntry storeTies (Some (''n1'', 9)) ''   '' 3 []) \<noteq> None
   \<and> snd (addEntry storeTies (Some (''n1'', 9)) ''   '' 3 []) = storeTies"
proof -
  let ?body = "\<lparr>b_text = Some ''ok'', b_effort = None, b_tags = Some []\<rparr>"
  have blank: "trim ''   '' = []"
    by (simp add: trim_def isWhiteSpace_def)
  have "b_effort ?body = None"
    by simp
  with blank show ?thesis
    using create_rejections [of storeTies "Some (''n1'', 9)" ?body "''   ''" 3 "[]"]
    by blast
qed

text \<open>
  C8, as stated, fails: \<open>POST\<close> accepts effort 7, and the store that takes the row in holds
  it with that effort.
\<close>

theorem POST_accepts_effort_7:
  "POST [] (Some (''c1'', 5)) \<lparr>b_text = Some ''ok'', b_effort = Some 7, b_tags = None\<rparr>
     = (Inr (Created_201
          \<lparr>e_id = ''c1'', e_date = 5, e_text = ''ok'', e_effort = 7, e_tags = [],
           e_createdAt = 5, e_updatedAt = 5\<rparr>),
        [\<lparr>e_id = ''c1'', e_date = 5, e_text = ''ok'', e_effort = 7, e_tags = ''[]'',
          e_createdAt = 5, e_updatedAt = 5\<rparr>])
   \<and> \<not> ((1::int) \<le> 7 \<and> (7::int) \<le> 5)"
  by (simp add: POST_accepted withTags_def JSON_stringify_def)

text \<open>
  C8, amended. \<open>POST\<close> refuses a missing effort and the effort 0, and checks no range:
  with a text that is not empty, the handler refuses no other effort and hands it to the
  store as it is. When the store takes the row in, the entry is created with that effort,
  whatever safe integer it is; when the store fails, the failure is the response and the
  table is as before.
\<close>

theorem POST_effort_unchecked:
  "POST store assigned \<lparr>b_text = t, b_effort = None, b_tags = tags\<rparr>
       = (Inr BadRequest_400, store)
   \<and> POST store assigned \<lparr>b_text = t, b_effort = Some 0, b_tags = tags\<rparr>
       = (Inr BadRequest_400, store)
   \<and> (text \<noteq> [] \<and> effort \<noteq> 0 \<longrightarrow>
        fst (POST store assigned \<lparr>b_text = Some text, b_effort = Some effort, b_tags = tags\<rparr>)
          \<noteq> Inr BadRequest_400)
   \<and> (text \<noteq> [] \<and> effort \<noteq> 0 \<and> isSafeInteger effort \<longrightarrow>
        (\<exists>created r.
           POST store (Some (new_id, now))
               \<lparr>b_text = Some text, b_effort = Some effort, b_tags = tags\<rparr>
             = (Inr (Created_201 created), store @ [r])
           \<and> e_effort created = effort \<and> e_effort r = effort))
   \<and> (text \<noteq> [] \<and> effort \<noteq> 0 \<longrightarrow>
        POST store None \<lparr>b_text = Some text, b_effort = Some effort, b_tags = tags\<rparr>
          = (Inl StorageFailure, store))"
proof (intro conjI impI)
  show "POST store assigned \<lparr>b_text = t, b_effort = None, b_tags = tags\<rparr>
      = (Inr BadRequest_400, store)"
    by (simp add: POST_def split: option.splits)
  show "POST store assigned \<lparr>b_text = t, b_effort = Some 0, b_tags = tags\<rparr>
      = (Inr BadRequest_400, store)"
    by (simp add: POST_def split: option.splits)
next
  assume "text \<noteq> [] \<and> effort \<noteq> 0"
  then show "fst (POST store assigned
        \<lparr>b_text = Some text, b_effort = Some effort, b_tags = tags\<rparr>) \<noteq> Inr BadRequest_400"
    by (simp add: POST_rejected_iff)
next
  assume "text \<noteq> [] \<and> effort \<noteq> 0 \<and> isSafeInteger effort"
  then show "\<exists>created r.
      POST store (Some (new_id, now))
          \<lparr>b_text = Some text, b_effort = Some effort, b_tags = tags\<rparr>
        = (Inr (Created_201 created), store @ [r])
      \<and> e_effort created = effort \<and> e_effort r = effort"
    by (simp add: POST_accepted Let_def withTags_def)
next
  assume "text \<noteq> [] \<and> effort \<noteq> 0"
  then show "POST store None \<lparr>b_text = Some text, b_effort = Some effort, b_tags = tags\<rparr>
      = (Inl StorageFailure, store)"
    by (simp add: POST_storage_failure)
qed

theorem POST_effort_unchecked_witness:
  "(\<exists>created r.
     POST storeTies (Some (''n1'', 9))
         \<lparr>b_text = Some ''ok'', b_effort = Some (- 2), b_tags = None\<rparr>
       = (Inr (Created_201 created), storeTies @ [r])
     \<and> e_effort created = - 2 \<and> e_effort r = - 2)
   \<and> POST storeTies None \<lparr>b_text = Some ''ok'', b_effort = Some (- 2), b_tags = None\<rparr>
       = (Inl StorageFailure, storeTies)"
proof -
  have "''ok'' \<noteq> [] \<and> (- 2 :: int) \<noteq> 0 \<and> isSafeInteger (- 2)"
    by (simp add: isSafeInteger_def)
  then show ?thesis
    using POST_effort_unchecked [of storeTies _ _ None "''ok''" "- 2" "''n1''" 9] by blast
qed

section \<open>Following the cursors\<close>

lemma rowsAfter_at_index:
  assumes "distinct (map e_id store)" and "i < length store"
  shows "rowsAfter store (Some (e_id (orderBy_date_desc store ! i)))
      = drop (Suc i) (orderBy_date_desc store)"
proof -
  let ?ordered = "orderBy_date_desc store"
  have "distinct (map e_id ?ordered)" and "i < length ?ordered"
    using assms by (simp_all add: distinct_ids_orderBy_date_desc)
  then have "length (takeWhile (\<lambda>r. e_id r \<noteq> e_id (?ordered ! i)) ?ordered) = i"
    using insertionIndex_nth [of ?ordered i] by (simp add: insertionIndex_def)
  then show ?thesis
    by (simp add: rowsAfter_def dropWhile_eq_drop drop_Suc drop_tl)
qed

lemma cursorParam_single: "c \<noteq> [] \<Longrightarrow> cursorParam [(''cursor'', c)] = Some c"
  by (simp add: cursorParam_def)

lemma GET_from_index:
  assumes wf: "wellFormedStore store"
    and at: "rowsAfter store (cursorParam ps) = drop k (orderBy_date_desc store)"
  shows "\<exists>es. GET store ps =
           Inr \<lparr>entries = es,
                nextCursor = (if k + 20 < length store
                              then Some (e_id (orderBy_date_desc store ! (k + 20))) else None)\<rparr>
         \<and> map e_id es = map e_id (take 20 (drop k (orderBy_date_desc store)))
         \<and> (k + 20 < length store \<longrightarrow>
              rowsAfter store (cursorParam [(''cursor'', e_id (orderBy_date_desc store ! (k + 20)))])
                = drop (k + 21) (orderBy_date_desc store))"
proof -
  let ?ordered = "orderBy_date_desc store"
  obtain es where get: "GET store ps =
      Inr \<lparr>entries = es,
           nextCursor = (if 20 < length (drop k ?ordered)
                         then Some (e_id (drop k ?ordered ! 20)) else None)\<rparr>"
    and rel: "list_all2 (\<lambda>r e. decodeRow r = Inr e) (take 20 (drop k ?ordered)) es"
    using GET_wellFormed [OF wf, of ps] unfolding at by blast
  have next_row: "rowsAfter store (cursorParam [(''cursor'', e_id (?ordered ! (k + 20)))])
      = drop (k + 21) ?ordered" if "k + 20 < length store"
  proof -
    have "?ordered ! (k + 20) \<in> set store"
      using that nth_mem [of "k + 20" ?ordered] by simp
    then have "e_id (?ordered ! (k + 20)) \<noteq> []"
      using wf by (auto simp: wellFormedStore_def list_all_iff)
    then have "cursorParam [(''cursor'', e_id (?ordered ! (k + 20)))]
        = Some (e_id (?ordered ! (k + 20)))"
      by (rule cursorParam_single)
    moreover have "distinct (map e_id store)"
      using wf by (simp add: wellFormedStore_def)
    ultimately show ?thesis
      using that by (simp add: rowsAfter_at_index add.commute)
  qed
  have "(if 20 < length (drop k ?ordered) then Some (e_id (drop k ?ordered ! 20)) else None)
      = (if k + 20 < length store then Some (e_id (?ordered ! (k + 20))) else None)"
    by (auto simp: add.commute)
  with get decoded_ids [OF rel] next_row show ?thesis
    by simp
qed

lemma allPages_from_index:
  assumes wf: "wellFormedStore store"
  shows "rowsAfter store (cursorParam ps) = drop k (orderBy_date_desc store)
    \<Longrightarrow> length store < k + 21 * Suc n
    \<Longrightarrow> \<exists>es. allPages (Suc n) store ps = Some (Inr es)
          \<and> set (map e_id es) \<subseteq> set (map e_id (drop k (orderBy_date_desc store)))"
proof (induction n arbitrary: ps k)
  case 0
  let ?ordered = "orderBy_date_desc store"
  obtain es where get: "GET store ps =
      Inr \<lparr>entries = es,
           nextCursor = (if k + 20 < length store
                         then Some (e_id (?ordered ! (k + 20))) else None)\<rparr>"
    and ids: "map e_id es = map e_id (take 20 (drop k ?ordered))"
    using GET_from_index [OF wf 0(1)] by blast
  have "set (map e_id es) \<subseteq> set (map e_id (drop k ?ordered))"
    unfolding ids using set_take_subset [of 20 "drop k ?ordered"] by auto
  moreover have "\<not> k + 20 < length store"
    using 0(2) by simp
  ultimately show ?case
    using get by simp
next
  case (Suc n)
  let ?ordered = "orderBy_date_desc store"
  obtain es where get: "GET store ps =
      Inr \<lparr>entries = es,
           nextCursor = (if k + 20 < length store
                         then Some (e_id (?ordered ! (k + 20))) else None)\<rparr>"
    and ids: "map e_id es = map e_id (take 20 (drop k ?ordered))"
    and nxt: "k + 20 < length store \<longrightarrow>
        rowsAfter store (cursorParam [(''cursor'', e_id (?ordered ! (k + 20)))])
          = drop (k + 21) ?ordered"
    using GET_from_index [OF wf Suc.prems(1)] by blast
  have sub1: "set (map e_id es) \<subseteq> set (map e_id (drop k ?ordered))"
    unfolding ids using set_take_subset [of 20 "drop k ?ordered"] by auto
  show ?case
  proof (cases "k + 20 < length store")
    case False
    with get sub1 show ?thesis by simp
  next
    case True
    let ?c = "e_id (?ordered ! (k + 20))"
    have "length store < (k + 21) + 21 * Suc n"
      using Suc.prems(2) by simp
    with nxt True obtain es' where
      rest: "allPages (Suc n) store [(''cursor'', ?c)] = Some (Inr es')"
      and sub2: "set (map e_id es') \<subseteq> set (map e_id (drop (k + 21) ?ordered))"
      using Suc.IH [of "[(''cursor'', ?c)]" "k + 21"] by blast
    have "set (drop (k + 21) ?ordered) \<subseteq> set (drop k ?ordered)"
      by (rule set_drop_subset_set_drop) simp
    with sub2 have "set (map e_id es') \<subseteq> set (map e_id (drop k ?ordered))"
      by auto
    with sub1 get rest True show ?thesis
      by (simp del: allPages.simps add: allPages.simps(2) [of "Suc n"] image_Un)
  qed
qed

lemma orderBy_date_desc_store21:
  "e_id (orderBy_date_desc store21 ! 20) = ''e01''"
  by code_simp

text \<open>
  With more than 20 stored entries the pages do not hold every entry: the 21st row in the
  order is fetched as the extra row and removed from the first page, its id becomes
  \<open>nextCursor\<close>, and the next request starts after it. Following the cursors ends, and
  that entry is in none of the pages.
\<close>

lemma allPages_loses_row_21:
  assumes "wellFormedStore store" and "20 < length store"
  shows "\<exists>es. allPages (Suc (length store)) store [] = Some (Inr es)
     \<and> e_id (orderBy_date_desc store ! 20) \<in> e_id ` set store
     \<and> e_id (orderBy_date_desc store ! 20) \<notin> e_id ` set es"
proof -
  let ?ordered = "orderBy_date_desc store"
  let ?c = "e_id (?ordered ! 20)"
  have start: "rowsAfter store (cursorParam []) = drop 0 ?ordered"
    by (simp add: rowsAfter_def cursorParam_def)
  obtain es1 where get: "GET store [] = Inr \<lparr>entries = es1, nextCursor = Some ?c\<rparr>"
    and ids1: "map e_id es1 = map e_id (take 20 ?ordered)"
    and nxt: "rowsAfter store (cursorParam [(''cursor'', ?c)]) = drop 21 ?ordered"
    using GET_from_index [OF assms(1) start] assms(2) by auto
  have "length store < 21 + 21 * Suc (length store - 1)"
    by simp
  then obtain es2 where rest: "allPages (Suc (length store - 1)) store [(''cursor'', ?c)]
      = Some (Inr es2)"
    and ids2: "set (map e_id es2) \<subseteq> set (map e_id (drop 21 ?ordered))"
    using allPages_from_index [OF assms(1) nxt] by blast
  have len: "Suc (length store - 1) = length store"
    using assms(2) by simp
  have all: "allPages (Suc (length store)) store [] = Some (Inr (es1 @ es2))"
    using get rest unfolding len by simp
  have dist: "distinct (map e_id ?ordered)"
    using assms(1) by (simp add: wellFormedStore_def distinct_ids_orderBy_date_desc)
  have "20 < length ?ordered"
    using assms(2) by simp
  then have "?ordered = take 20 ?ordered @ ?ordered ! 20 # drop (Suc 20) ?ordered"
    by (rule id_take_nth_drop)
  then have "map e_id ?ordered
      = map e_id (take 20 ?ordered @ ?ordered ! 20 # drop (Suc 20) ?ordered)"
    by (rule arg_cong)
  also have "\<dots> = map e_id (take 20 ?ordered) @ ?c # map e_id (drop 21 ?ordered)"
    by simp
  finally have split: "map e_id ?ordered
      = map e_id (take 20 ?ordered) @ ?c # map e_id (drop 21 ?ordered)" .
  have "?c \<notin> set (map e_id (take 20 ?ordered))" and "?c \<notin> set (map e_id (drop 21 ?ordered))"
    using dist unfolding split by auto
  with ids1 ids2 have "?c \<notin> set (map e_id (es1 @ es2))"
    by auto
  moreover have "?ordered ! 20 \<in> set store"
    using assms(2) nth_mem [of 20 ?ordered] by simp
  ultimately show ?thesis
    using all by auto
qed

text \<open>
  C3. On the store of 21 entries the first page holds the 20 newest and names the oldest,
  \<open>e01\<close>, as \<open>nextCursor\<close>; the page asked for with that cursor is empty and ends the
  walk. The pages put end to end hold 20 entries, and the stored entry \<open>e01\<close> is not among
  them.
\<close>

theorem pages_of_store21_lose_e01:
  "GET store21 [] =
     Inr \<lparr>entries = map (\<lambda>r. withTags r []) (take 20 (rev store21)),
          nextCursor = Some ''e01''\<rparr>
   \<and> GET store21 [(''cursor'', ''e01'')] = Inr \<lparr>entries = [], nextCursor = None\<rparr>
   \<and> allPages 2 store21 [] = Some (Inr (map (\<lambda>r. withTags r []) (take 20 (rev store21))))
   \<and> ''e01'' \<in> e_id ` set store21
   \<and> ''e01'' \<notin> e_id ` set (map (\<lambda>r. withTags r []) (take 20 (rev store21)))
   \<and> (\<exists>es. allPages 22 store21 [] = Some (Inr es) \<and> ''e01'' \<notin> e_id ` set es)"
proof -
  have first: "GET store21 [] =
       Inr \<lparr>entries = map (\<lambda>r. withTags r []) (take 20 (rev store21)),
            nextCursor = Some ''e01''\<rparr>"
    by code_simp
  have second: "GET store21 [(''cursor'', ''e01'')] = Inr \<lparr>entries = [], nextCursor = None\<rparr>"
    by code_simp
  have walk: "allPages 2 store21 [] =
      Some (Inr (map (\<lambda>r. withTags r []) (take 20 (rev store21))))"
    using first second by (simp add: eval_nat_numeral)
  have absent: "''e01'' \<notin> e_id ` set (map (\<lambda>r. withTags r []) (take 20 (rev store21)))"
    by code_simp
  have len: "length store21 = 21"
    by (simp add: store21_def)
  then have "20 < length store21"
    by simp
  from allPages_loses_row_21 [OF wellFormedStore_store21 this]
  have "\<exists>es. allPages 22 store21 [] = Some (Inr es) \<and> ''e01'' \<notin> e_id ` set es"
    and "''e01'' \<in> e_id ` set store21"
    unfolding len orderBy_date_desc_store21 by (auto simp: eval_nat_numeral)
  with first second walk absent show ?thesis
    by (intro conjI)
qed

end
